theory Spec2Isabelle
  imports Complex_Main "HOL-Library.Sublist"
begin

section \<open>JavaScript strings\<close>

text \<open>
  A JavaScript string is a sequence of code units. The model uses \<^typ>\<open>string\<close>, so a code
  unit is one of the 256 values of \<^typ>\<open>char\<close>, read as the code points U+0000 to U+00FF.
  \<^verbatim>\<open>String.prototype.trim\<close> removes white space and line terminators at both ends; in this
  range these are TAB, LF, VT, FF, CR, SPACE and NBSP.
\<close>

definition isWhiteSpace :: "char \<Rightarrow> bool" where
  "isWhiteSpace c =
     (let n = (of_char c :: nat) in (9 \<le> n \<and> n \<le> 13) \<or> n = 32 \<or> n = 160)"

definition trim :: "string \<Rightarrow> string" where
  "trim s = rev (dropWhile isWhiteSpace (rev (dropWhile isWhiteSpace s)))"

text \<open>
  \<^verbatim>\<open>String.prototype.toLowerCase\<close> on the code units below 256: the letters A to Z and the
  Latin-1 capitals U+00C0 to U+00DE (without the multiplication sign U+00D7) move up by 32.
\<close>

definition toLowerChar :: "char \<Rightarrow> char" where
  "toLowerChar c =
     (let n = (of_char c :: nat)
      in if (65 \<le> n \<and> n \<le> 90) \<or> (192 \<le> n \<and> n \<le> 222 \<and> n \<noteq> 215)
         then char_of (n + 32) else c)"

definition toLowerCase :: "string \<Rightarrow> string" where
  "toLowerCase s = map toLowerChar s"

text \<open>\<^verbatim>\<open>s.startsWith(t)\<close> and \<^verbatim>\<open>s.includes(t)\<close>.\<close>

fun startsWith :: "'a list \<Rightarrow> 'a list \<Rightarrow> bool" where
  "startsWith s [] = True"
| "startsWith [] (y # t) = False"
| "startsWith (x # s) (y # t) = (x = y \<and> startsWith s t)"

fun str_includes :: "'a list \<Rightarrow> 'a list \<Rightarrow> bool" where
  "str_includes [] t = (t = [])"
| "str_includes (x # s) t = (startsWith (x # s) t \<or> str_includes s t)"

text \<open>\<^verbatim>\<open>xs.map((x, i) => f(x, i))\<close>: the callback receives the element and its position.\<close>

definition mapi :: "('a \<Rightarrow> nat \<Rightarrow> 'b) \<Rightarrow> 'a list \<Rightarrow> 'b list" where
  "mapi f xs = map (\<lambda>(i, x). f x i) (enumerate 0 xs)"

section \<open>Asking questions (lib/api.ts and the ask page)\<close>

text \<open>
  \<^verbatim>\<open>fetch\<close> either rejects (the request itself failed) or resolves with a response, which
  carries the flag \<^verbatim>\<open>ok\<close> and a body. \<^verbatim>\<open>res.json()\<close> rejects when the body is not JSON;
  otherwise it yields the answer and, possibly, the sources. The backend is a parameter:
  the outcome of the request for a question.
\<close>

record Source =
  "text" :: string
  speaker :: "int option"
  start :: rat

record AskResult =
  answer :: string
  sources :: "Source list option"

record Response =
  ok :: bool
  json :: "AskResult option"

datatype fetch_outcome = Rejected | Resolved Response

datatype error = FetchRejected | Error string | JsonRejected

definition askQuestion :: "(string \<Rightarrow> fetch_outcome) \<Rightarrow> string \<Rightarrow> error + AskResult" where
  "askQuestion backend question =
     (case backend question of
        Rejected \<Rightarrow> Inl FetchRejected
      | Resolved res \<Rightarrow>
          if \<not> ok res then Inl (Error ''Failed to get answer'')
          else (case json res of None \<Rightarrow> Inl JsonRejected | Some result \<Rightarrow> Inr result))"

text \<open>
  The state of the ask page. A message of the conversation may or may not have the field
  \<^verbatim>\<open>sources\<close>; \<open>None\<close> is a message without it.
\<close>

datatype role = User | Assistant

record ChatMessage =
  role :: role
  content :: string
  sources :: "Source list option"

record AskPage =
  messages :: "ChatMessage list"
  input :: string
  isLoading :: bool

text \<open>
  \<^verbatim>\<open>handleSubmit\<close>, from the submission to the end of its \<^verbatim>\<open>finally\<close> block: the question is
  appended, then either the answer with its sources (\<^verbatim>\<open>result.sources || []\<close>), or, when
  \<^verbatim>\<open>askQuestion\<close> throws, the apology without sources.
\<close>

definition handleSubmit :: "(string \<Rightarrow> fetch_outcome) \<Rightarrow> AskPage \<Rightarrow> AskPage" where
  "handleSubmit backend page =
     (let question = trim (input page)
      in if question = [] \<or> isLoading page then page
         else
           let page = page\<lparr>input := []\<rparr>;
               page = page\<lparr>messages := messages page
                        @ [\<lparr>role = User, content = question, sources = None\<rparr>]\<rparr>;
               page = page\<lparr>isLoading := True\<rparr>;
               page =
                 (case askQuestion backend question of
                    Inr result \<Rightarrow>
                      page\<lparr>messages := messages page
                             @ [\<lparr>role = Assistant, content = answer result,
                                 sources = Some (case AskResult.sources result of
                                                   None \<Rightarrow> [] | Some srcs \<Rightarrow> srcs)\<rparr>]\<rparr>
                  | Inl e \<Rightarrow>
                      page\<lparr>messages := messages page
                             @ [\<lparr>role = Assistant,
                                 content = ''Sorry, I encountered an error processing your question. Please try again.'',
                                 sources = None\<rparr>]\<rparr>)
           in page\<lparr>isLoading := False\<rparr>)"

section \<open>The transcript data model (types.ts)\<close>

record Sentence =
  "text" :: string
  start :: rat
  "end" :: rat

record Word =
  word :: string
  start :: rat
  "end" :: rat
  confidence :: rat
  speaker :: "int option"
  punctuated_word :: string

record Entity =
  label :: string
  "value" :: string
  confidence :: rat
  start_word :: nat
  end_word :: nat

record Topic =
  topic :: string
  confidence :: rat
  start :: rat
  "end" :: rat

record Paragraph =
  speaker :: "int option"
  start :: rat
  "end" :: rat
  num_words :: nat
  "text" :: string
  sentences :: "Sentence list"

record Metadata =
  duration :: rat
  channels :: nat
  model :: "(string \<times> string) list"

record TranscriptData =
  metadata :: Metadata
  summary :: string
  topics :: "Topic list"
  entities :: "Entity list"
  speakers :: "int list"
  paragraphs :: "Paragraph list"
  words :: "Word list"
  full_transcript :: string

section \<open>The Fuse.js interface\<close>

text \<open>
  Fuse.js is a dependency of the frontend; its code is not part of the repository. The pages
  construct an index with \<^verbatim>\<open>new Fuse(docs, options)\<close> and query it with \<^verbatim>\<open>fuse.search(q)\<close>,
  which returns a list of hits, each carrying the matched document, its position in \<^verbatim>\<open>docs\<close>
  and its score (0 is a perfect match). The library is a parameter of the model: a function
  from the options, the documents and the query to the list of hits.
\<close>

record FuseOptions =
  keys :: "string list"
  threshold :: rat
  includeScore :: bool
  ignoreLocation :: bool
  minMatchCharLength :: nat

record 'd FuseResult =
  item :: 'd
  refIndex :: nat
  score :: rat

record 'd Fuse =
  docs :: "'d list"
  options :: FuseOptions

type_synonym 'd FuseLib = "FuseOptions \<Rightarrow> 'd list \<Rightarrow> string \<Rightarrow> 'd FuseResult list"

definition search :: "'d FuseLib \<Rightarrow> 'd Fuse \<Rightarrow> string \<Rightarrow> 'd FuseResult list" where
  "search lib fuse query = lib (options fuse) (docs fuse) query"

text \<open>
  What Fuse.js documents about the hits of a search: they are sorted by ascending score
  and, for equal scores, by ascending position (its default \<^verbatim>\<open>sortFn\<close>), and each hit
  carries the document at its position.
\<close>

definition ranked_before :: "'d FuseResult \<Rightarrow> 'd FuseResult \<Rightarrow> bool" where
  "ranked_before a b = (score a < score b \<or> (score a = score b \<and> refIndex a < refIndex b))"

definition fuse_ranked :: "'d list \<Rightarrow> 'd FuseResult list \<Rightarrow> bool" where
  "fuse_ranked ds hits =
     (sorted_wrt ranked_before hits
      \<and> (\<forall>r \<in> set hits. refIndex r < length ds \<and> item r = ds ! refIndex r))"

text \<open>The options both pages pass to the constructor.\<close>

definition fuse_options :: FuseOptions where
  "fuse_options =
     \<lparr>keys = [''text''], threshold = 3 / 10, includeScore = True, ignoreLocation = True,
      minMatchCharLength = 2\<rparr>"

section \<open>The search page (SearchPage)\<close>

text \<open>
  The documents of the index are copies of the paragraphs, each extended with its position
  (\<^verbatim>\<open>{ ...p, index: i }\<close>; the added field is \<open>item_index\<close> here, since \<open>index\<close> names the field
  of \<^verbatim>\<open>SearchResult\<close>).
\<close>

record IndexedParagraph = Paragraph +
  item_index :: nat

record SearchResult =
  "paragraph" :: Paragraph
  index :: nat

definition SearchPage_fuse :: "TranscriptData option \<Rightarrow> IndexedParagraph Fuse option" where
  "SearchPage_fuse data =
     (case data of
        None \<Rightarrow> None
      | Some d \<Rightarrow>
          Some \<lparr>docs = mapi (\<lambda>p i. Paragraph.extend p \<lparr>item_index = i\<rparr>) (paragraphs d),
                options = fuse_options\<rparr>)"

text \<open>The first stage of \<^verbatim>\<open>results\<close>: the value of \<^verbatim>\<open>matches\<close> before the filters.\<close>

definition SearchPage_matches ::
  "IndexedParagraph FuseLib \<Rightarrow> TranscriptData \<Rightarrow> string \<Rightarrow> SearchResult list" where
  "SearchPage_matches lib d query =
     (case (trim query \<noteq> [], SearchPage_fuse (Some d)) of
        (True, Some fuse) \<Rightarrow>
          map (\<lambda>r. \<lparr>paragraph = Paragraph.truncate (item r), index = item_index (item r)\<rparr>)
            (search lib fuse query)
      | _ \<Rightarrow> mapi (\<lambda>p i. \<lparr>paragraph = p, index = i\<rparr>) (paragraphs d))"

definition results ::
  "IndexedParagraph FuseLib \<Rightarrow> TranscriptData option \<Rightarrow> string \<Rightarrow> int option \<Rightarrow> string
     \<Rightarrow> SearchResult list" where
  "results lib data query filterSpeaker filterEntity =
     (case data of
        None \<Rightarrow> []
      | Some d \<Rightarrow>
          let matches = SearchPage_matches lib d query;
              matches = (if filterSpeaker \<noteq> None
                         then filter (\<lambda>m. Paragraph.speaker (paragraph m) = filterSpeaker) matches
                         else matches);
              matches = (if filterEntity \<noteq> []
                         then filter (\<lambda>m. str_includes (toLowerCase (Paragraph.text (paragraph m)))
                                              (toLowerCase filterEntity)) matches
                         else matches)
          in take 100 matches)"

section \<open>The transcript browse page (TranscriptContent)\<close>

text \<open>
  Here the added field is \<^verbatim>\<open>_idx\<close> and a result is \<^verbatim>\<open>{ para, idx }\<close>. In \<open>filtered\<close> the
  local variable \<^verbatim>\<open>results\<close> is written \<open>rs\<close>; there is no slice at the end.
\<close>

record BrowseParagraph = Paragraph +
  item_idx :: nat

record BrowseResult =
  para :: Paragraph
  idx :: nat

definition TranscriptContent_fuse :: "TranscriptData option \<Rightarrow> BrowseParagraph Fuse option" where
  "TranscriptContent_fuse data =
     (case data of
        None \<Rightarrow> None
      | Some d \<Rightarrow>
          Some \<lparr>docs = mapi (\<lambda>p i. Paragraph.extend p \<lparr>item_idx = i\<rparr>) (paragraphs d),
                options = fuse_options\<rparr>)"

definition TranscriptContent_matches ::
  "BrowseParagraph FuseLib \<Rightarrow> TranscriptData \<Rightarrow> string \<Rightarrow> BrowseResult list" where
  "TranscriptContent_matches lib d query =
     (case (trim query \<noteq> [], TranscriptContent_fuse (Some d)) of
        (True, Some fuse) \<Rightarrow>
          map (\<lambda>r. \<lparr>para = Paragraph.truncate (item r), idx = item_idx (item r)\<rparr>)
            (search lib fuse query)
      | _ \<Rightarrow> mapi (\<lambda>p i. \<lparr>para = p, idx = i\<rparr>) (paragraphs d))"

definition filtered ::
  "BrowseParagraph FuseLib \<Rightarrow> TranscriptData option \<Rightarrow> string \<Rightarrow> int option \<Rightarrow> string
     \<Rightarrow> BrowseResult list" where
  "filtered lib data query filterSpeaker filterEntity =
     (case data of
        None \<Rightarrow> []
      | Some d \<Rightarrow>
          let rs = TranscriptContent_matches lib d query;
              rs = (if filterSpeaker \<noteq> None
                    then filter (\<lambda>r. Paragraph.speaker (para r) = filterSpeaker) rs
                    else rs);
              rs = (if filterEntity \<noteq> []
                    then filter (\<lambda>r. str_includes (toLowerCase (Paragraph.text (para r)))
                                         (toLowerCase filterEntity)) rs
                    else rs)
          in rs)"

section \<open>Highlighting (highlightText, the same function on both pages)\<close>

subsection \<open>The regular expression built from the query\<close>

text \<open>
  \<^verbatim>\<open>query.replace(/[.*+?^${}()|[\]\\]/g, "\\$&")\<close> puts a backslash before each of the
  fourteen syntax characters of a regular expression.
\<close>

definition backslash :: char where
  "backslash = CHR 0x5C"

definition syntaxCharacters :: "char list" where
  "syntaxCharacters = ''.*+?^${}()|[]'' @ [backslash]"

definition escapeRegExp :: "string \<Rightarrow> string" where
  "escapeRegExp query =
     concat (map (\<lambda>c. if c \<in> set syntaxCharacters then [backslash, c] else [c]) query)"

text \<open>
  The pattern handed to \<^verbatim>\<open>new RegExp\<close> is the escaped query inside one capturing group. The
  model covers the patterns of this shape: a group around a sequence of atoms, each a
  character that is not a syntax character, or a backslash followed by a syntax character
  (an identity escape). \<open>patternAtoms\<close> reads the atoms and returns the characters they
  stand for; \<open>None\<close> is a pattern outside this fragment.
\<close>

fun patternAtoms :: "string \<Rightarrow> string option" where
  "patternAtoms [] = Some []"
| "patternAtoms [c] = (if c \<in> set syntaxCharacters then None else Some [c])"
| "patternAtoms (c # d # cs) =
     (if c = backslash
      then (if d \<in> set syntaxCharacters then map_option ((#) d) (patternAtoms cs) else None)
      else if c \<in> set syntaxCharacters then None
      else map_option ((#) c) (patternAtoms (d # cs)))"

text \<open>
  A compiled expression with the flags \<^verbatim>\<open>gi\<close>: the characters of its group and the
  \<^verbatim>\<open>lastIndex\<close> that \<^verbatim>\<open>test\<close> reads and writes because of the flag \<^verbatim>\<open>g\<close>.
\<close>

record RegExp =
  atoms :: string
  lastIndex :: nat

definition new_RegExp :: "string \<Rightarrow> RegExp option" where
  "new_RegExp source =
     (case source of
        [] \<Rightarrow> None
      | c # rest \<Rightarrow>
          if c = CHR ''('' \<and> rest \<noteq> [] \<and> last rest = CHR '')''
          then map_option (\<lambda>cs. \<lparr>atoms = cs, lastIndex = 0\<rparr>) (patternAtoms (butlast rest))
          else None)"

text \<open>
  With the flag \<^verbatim>\<open>i\<close> and without the flag \<^verbatim>\<open>u\<close>, two code units match when their
  canonical forms are equal. The canonical form is the upper-case form if that is a single
  code unit, and a code unit from 128 on never becomes one below 128. Below 256: a to z and
  U+00E0 to U+00FE (without the division sign U+00F7) move down by 32; the upper-case forms
  of U+00B5 and U+00FF lie beyond 255 and equal no other code unit below 256, and U+00DF
  has no single upper-case code unit, so these three stay.
\<close>

definition canonicalize :: "char \<Rightarrow> char" where
  "canonicalize c =
     (let n = (of_char c :: nat)
      in if (97 \<le> n \<and> n \<le> 122) \<or> (224 \<le> n \<and> n \<le> 254 \<and> n \<noteq> 247)
         then char_of (n - 32) else c)"

text \<open>The group matches at position \<open>i\<close> of \<open>s\<close>.\<close>

definition matchesAt :: "string \<Rightarrow> string \<Rightarrow> nat \<Rightarrow> bool" where
  "matchesAt cs s i = startsWith (map canonicalize (drop i s)) (map canonicalize cs)"

definition substring :: "string \<Rightarrow> nat \<Rightarrow> nat \<Rightarrow> string" where
  "substring s p q = take (q - p) (drop p s)"

subsection \<open>String.prototype.split with a regular expression\<close>

text \<open>
  The loop of \<^verbatim>\<open>RegExp.prototype[Symbol.split]\<close> without a limit: \<open>p\<close> is the end of the last
  match, \<open>q\<close> the position tried next. A match at \<open>q\<close> that ends at \<open>e \<noteq> p\<close> contributes the
  text between \<open>p\<close> and \<open>q\<close> and then the capture of the group; at the end the text from
  \<open>p\<close> on is added.
\<close>

function split_loop :: "string \<Rightarrow> string \<Rightarrow> nat \<Rightarrow> nat \<Rightarrow> string list" where
  "split_loop cs s p q =
     (if q < length s
      then (if matchesAt cs s q
            then (let e = min (q + length cs) (length s)
                  in if e = p then split_loop cs s p (q + 1)
                     else substring s p q # substring s q e # split_loop cs s e e)
            else split_loop cs s p (q + 1))
      else [substring s p (length s)])"
  by pat_completeness auto
termination
proof (relation "measures [\<lambda>(cs, s, p, q). length s - q, \<lambda>(cs, s, p, q). if p = q then 0 else 1]")
  fix cs s :: string and p q e :: nat
  assume a: "q < length s" "matchesAt cs s q" "e = min (q + length cs) (length s)" "e \<noteq> p"
  show "((cs, s, e, e), (cs, s, p, q))
        \<in> measures [\<lambda>(cs, s, p, q). length s - q, \<lambda>(cs, s, p, q). if p = q then 0 else 1]"
  proof (cases "cs = []")
    case True
    with a show ?thesis by (auto simp: min_def)
  next
    case False
    then obtain c cs' where "cs = c # cs'" by (cases cs) auto
    with a show ?thesis by (auto simp: min_def)
  qed
qed auto

declare split_loop.simps [simp del]

definition split :: "string \<Rightarrow> RegExp \<Rightarrow> string list" where
  "split s regex =
     (if s = [] then (if matchesAt (atoms regex) s 0 then [] else [s])
      else split_loop (atoms regex) s 0 0)"

subsection \<open>RegExp.prototype.test on an expression with the flag g\<close>

text \<open>
  The search starts at \<^verbatim>\<open>lastIndex\<close>. A match sets \<^verbatim>\<open>lastIndex\<close> to its end; a failure,
  also when \<^verbatim>\<open>lastIndex\<close> is beyond the end of the string, sets it to 0.
\<close>

function exec_from :: "string \<Rightarrow> string \<Rightarrow> nat \<Rightarrow> nat option" where
  "exec_from cs s i =
     (if i > length s then None
      else if matchesAt cs s i then Some (i + length cs)
      else exec_from cs s (i + 1))"
  by pat_completeness auto
termination
  by (relation "measure (\<lambda>(cs, s, i). Suc (length s) - i)") auto

declare exec_from.simps [simp del]

definition test :: "RegExp \<Rightarrow> string \<Rightarrow> bool \<times> RegExp" where
  "test regex s =
     (case exec_from (atoms regex) s (lastIndex regex) of
        None \<Rightarrow> (False, regex\<lparr>lastIndex := 0\<rparr>)
      | Some e \<Rightarrow> (True, regex\<lparr>lastIndex := e\<rparr>))"

subsection \<open>highlightText\<close>

text \<open>
  A fragment of the rendered paragraph: plain text, or text inside \<^verbatim>\<open><mark>\<close>. For a blank
  query the function returns the text itself, which renders as one plain fragment.
  \<^verbatim>\<open>parts.map\<close> calls \<^verbatim>\<open>regex.test\<close> on each part in turn, on the one expression object.
\<close>

datatype fragment = Plain string | Mark string

fun fragment_text :: "fragment \<Rightarrow> string" where
  "fragment_text (Plain s) = s"
| "fragment_text (Mark s) = s"

fun mark_parts :: "RegExp \<Rightarrow> string list \<Rightarrow> fragment list" where
  "mark_parts regex [] = []"
| "mark_parts regex (part # parts) =
     (case test regex part of
        (True, regex') \<Rightarrow> Mark part # mark_parts regex' parts
      | (False, regex') \<Rightarrow> Plain part # mark_parts regex' parts)"

text \<open>\<open>None\<close> stands for the exception of \<^verbatim>\<open>new RegExp\<close> on a pattern it rejects.\<close>

definition highlightText :: "string \<Rightarrow> string \<Rightarrow> fragment list option" where
  "highlightText query txt =
     (if trim query = [] then Some [Plain txt]
      else (case new_RegExp (''('' @ escapeRegExp query @ '')'') of
              None \<Rightarrow> None
            | Some regex \<Rightarrow> Some (mark_parts regex (split txt regex))))"

subsection \<open>What a highlighted paragraph looks like\<close>

text \<open>
  Equality and occurrence up to case, as the expression sees them; the fragments of a list
  of parts that starts with plain text and alternates; and the property that a list of
  fragments marks the occurrences of the query found by a scan from the left: each marked
  fragment equals the query up to case and is the first occurrence in the text that begins
  with the plain fragment before it, and the last plain fragment contains no occurrence.
\<close>

definition ci_equal :: "string \<Rightarrow> string \<Rightarrow> bool" where
  "ci_equal a b = (map canonicalize a = map canonicalize b)"

definition ci_occurs :: "string \<Rightarrow> string \<Rightarrow> bool" where
  "ci_occurs query s = str_includes (map canonicalize s) (map canonicalize query)"

fun alternate :: "string list \<Rightarrow> fragment list" where
  "alternate [] = []"
| "alternate [u] = [Plain u]"
| "alternate (u # m # parts) = Plain u # Mark m # alternate parts"

fun marks_occurrences :: "string \<Rightarrow> fragment list \<Rightarrow> bool" where
  "marks_occurrences query [Plain u] = (\<not> ci_occurs query u)"
| "marks_occurrences query (Plain u # Mark m # rest) =
     (ci_equal m query \<and> \<not> ci_occurs query (u @ butlast m) \<and> marks_occurrences query rest)"
| "marks_occurrences query _ = False"

section \<open>The pages over an explicit store\<close>

text \<open>
  Whether a search changes the transcript depends on which objects the pages create and
  which they share, so this part runs the same code over a store of objects. A value is a
  primitive or a reference; an object is a record of fields, an array, or a \<^verbatim>\<open>Map\<close>. The
  store is the list of all objects created so far, a reference is a position in it, and a
  new object goes to the end. A read of a field that is not there gives \<^verbatim>\<open>undefined\<close>; the
  types of the pages exclude reads from values that are not objects, and the model gives
  \<^verbatim>\<open>undefined\<close> (or no elements) there as well.
\<close>

type_synonym addr = nat

datatype jsval = Undefined | Null | Num rat | Str string | Ref addr

datatype jsobj =
  Object "(string \<times> jsval) list"
| Array "jsval list"
| MapObject "(jsval \<times> jsval) list"

type_synonym store = "jsobj list"

definition alloc :: "jsobj \<Rightarrow> store \<Rightarrow> jsval \<times> store" where
  "alloc ob h = (Ref (length h), h @ [ob])"

definition deref :: "store \<Rightarrow> jsval \<Rightarrow> jsobj option" where
  "deref h v = (case v of Ref a \<Rightarrow> (if a < length h then Some (h ! a) else None) | _ \<Rightarrow> None)"

definition own_fields :: "store \<Rightarrow> jsval \<Rightarrow> (string \<times> jsval) list" where
  "own_fields h v = (case deref h v of Some (Object fs) \<Rightarrow> fs | _ \<Rightarrow> [])"

definition get :: "store \<Rightarrow> jsval \<Rightarrow> string \<Rightarrow> jsval" where
  "get h v f = (case map_of (own_fields h v) f of Some x \<Rightarrow> x | None \<Rightarrow> Undefined)"

definition elements :: "store \<Rightarrow> jsval \<Rightarrow> jsval list" where
  "elements h v = (case deref h v of Some (Array xs) \<Rightarrow> xs | _ \<Rightarrow> [])"

text \<open>A value is valid in a store unless it is a reference beyond the end of the store.\<close>

definition valid :: "store \<Rightarrow> jsval \<Rightarrow> bool" where
  "valid h v = (case v of Ref a \<Rightarrow> a < length h | _ \<Rightarrow> True)"

definition truthy :: "jsval \<Rightarrow> bool" where
  "truthy v = (v \<noteq> Undefined \<and> v \<noteq> Null \<and> v \<noteq> Num 0 \<and> v \<noteq> Str [])"

definition str_of :: "jsval \<Rightarrow> string" where
  "str_of v = (case v of Str s \<Rightarrow> s | _ \<Rightarrow> [])"

text \<open>
  \<^verbatim>\<open>{ ...p, k: v }\<close>: a new object with the fields of \<open>p\<close> and the field \<open>k\<close>.
\<close>

definition spread_with :: "jsval \<Rightarrow> string \<Rightarrow> jsval \<Rightarrow> store \<Rightarrow> jsval \<times> store" where
  "spread_with p k v h = alloc (Object (filter (\<lambda>(k', _). k' \<noteq> k) (own_fields h p) @ [(k, v)])) h"

text \<open>
  The copy that the spread creates from \<open>p\<close> as it is in the store \<open>h\<close>, with position
  \<open>i\<close> in the field \<open>k\<close>; and a reference to an object created after the store \<open>h\<close>.
\<close>

definition copy_with :: "store \<Rightarrow> string \<Rightarrow> jsval \<Rightarrow> nat \<Rightarrow> jsobj" where
  "copy_with h k p i = Object (filter (\<lambda>(k', _). k' \<noteq> k) (own_fields h p) @ [(k, Num (of_nat i))])"

definition created_after :: "store \<Rightarrow> jsval \<Rightarrow> bool" where
  "created_after h v = (case v of Ref a \<Rightarrow> length h \<le> a | _ \<Rightarrow> False)"

text \<open>
  \<^verbatim>\<open>Array.prototype.map\<close>, \<^verbatim>\<open>filter\<close> and \<^verbatim>\<open>slice\<close> create a new array and leave the old one;
  the callback of \<^verbatim>\<open>map\<close> may create objects. \<^verbatim>\<open>Array.prototype.sort\<close> sorts the array it is
  called on in place (stably) and returns it.
\<close>

fun map_elements ::
  "(jsval \<Rightarrow> nat \<Rightarrow> store \<Rightarrow> jsval \<times> store) \<Rightarrow> jsval list \<Rightarrow> nat \<Rightarrow> store \<Rightarrow> jsval list \<times> store" where
  "map_elements f [] i h = ([], h)"
| "map_elements f (x # xs) i h =
     (case f x i h of
        (y, h1) \<Rightarrow> (case map_elements f xs (Suc i) h1 of (ys, h2) \<Rightarrow> (y # ys, h2)))"

definition array_map ::
  "(jsval \<Rightarrow> nat \<Rightarrow> store \<Rightarrow> jsval \<times> store) \<Rightarrow> jsval \<Rightarrow> store \<Rightarrow> jsval \<times> store" where
  "array_map f arr h = (case map_elements f (elements h arr) 0 h of (ys, h1) \<Rightarrow> alloc (Array ys) h1)"

definition array_filter :: "(store \<Rightarrow> jsval \<Rightarrow> bool) \<Rightarrow> jsval \<Rightarrow> store \<Rightarrow> jsval \<times> store" where
  "array_filter P arr h = alloc (Array (filter (P h) (elements h arr))) h"

definition array_slice :: "nat \<Rightarrow> nat \<Rightarrow> jsval \<Rightarrow> store \<Rightarrow> jsval \<times> store" where
  "array_slice i j arr h = alloc (Array (take (j - i) (drop i (elements h arr)))) h"

fun insert_sorted :: "('a \<Rightarrow> 'a \<Rightarrow> bool) \<Rightarrow> 'a \<Rightarrow> 'a list \<Rightarrow> 'a list" where
  "insert_sorted le x [] = [x]"
| "insert_sorted le x (y # ys) = (if le x y then x # y # ys else y # insert_sorted le x ys)"

definition array_sort :: "(store \<Rightarrow> jsval \<Rightarrow> jsval \<Rightarrow> bool) \<Rightarrow> jsval \<Rightarrow> store \<Rightarrow> jsval \<times> store" where
  "array_sort le arr h =
     (case arr of
        Ref a \<Rightarrow>
          (case deref h arr of
             Some (Array xs) \<Rightarrow> (arr, h[a := Array (foldr (insert_sorted (le h)) xs [])])
           | _ \<Rightarrow> (arr, h))
      | _ \<Rightarrow> (arr, h))"

text \<open>
  \<^verbatim>\<open>new Map(pairs)\<close> sets the entries in order: a key that is already there keeps its place
  and takes the new value. \<^verbatim>\<open>Array.from(map.values())\<close> is a new array of the values.
\<close>

fun map_set :: "(jsval \<times> jsval) list \<Rightarrow> jsval \<Rightarrow> jsval \<Rightarrow> (jsval \<times> jsval) list" where
  "map_set [] k v = [(k, v)]"
| "map_set ((k', v') # es) k v = (if k' = k then (k, v) # es else (k', v') # map_set es k v)"

definition pair_of :: "store \<Rightarrow> jsval \<Rightarrow> jsval \<times> jsval" where
  "pair_of h v =
     (case elements h v of
        [] \<Rightarrow> (Undefined, Undefined)
      | [k] \<Rightarrow> (k, Undefined)
      | k # x # _ \<Rightarrow> (k, x))"

definition new_Map :: "jsval \<Rightarrow> store \<Rightarrow> jsval \<times> store" where
  "new_Map pairs h =
     alloc (MapObject (foldl (\<lambda>es (k, v). map_set es k v) [] (map (pair_of h) (elements h pairs)))) h"

definition Array_from_values :: "jsval \<Rightarrow> store \<Rightarrow> jsval \<times> store" where
  "Array_from_values m h =
     alloc (Array (case deref h m of Some (MapObject es) \<Rightarrow> map snd es | _ \<Rightarrow> [])) h"

text \<open>
  Fuse.js over the store. The library is a parameter again: from the options, the texts of
  the documents and the query it gives the positions and scores of the hits. The instance
  keeps the array of documents it was given; a search creates one object per hit and the
  array of hits, and writes nothing else.
\<close>

type_synonym FuseMatcher = "FuseOptions \<Rightarrow> string list \<Rightarrow> string \<Rightarrow> (nat \<times> rat) list"

definition new_Fuse :: "jsval \<Rightarrow> store \<Rightarrow> jsval \<times> store" where
  "new_Fuse ds h = alloc (Object [(''_docs'', ds)]) h"

fun alloc_all :: "jsobj list \<Rightarrow> store \<Rightarrow> jsval list \<times> store" where
  "alloc_all [] h = ([], h)"
| "alloc_all (ob # obs) h =
     (case alloc ob h of (v, h1) \<Rightarrow> (case alloc_all obs h1 of (vs, h2) \<Rightarrow> (v # vs, h2)))"

definition Fuse_search :: "FuseMatcher \<Rightarrow> jsval \<Rightarrow> string \<Rightarrow> store \<Rightarrow> jsval \<times> store" where
  "Fuse_search matcher fuse query h =
     (let ds = elements h (get h fuse ''_docs'');
          hits = filter (\<lambda>(i, s). i < length ds)
                   (matcher fuse_options (map (\<lambda>d. str_of (get h d ''text'')) ds) query)
      in case alloc_all
                (map (\<lambda>(i, s). Object [(''item'', ds ! i), (''refIndex'', Num (of_nat i)),
                                        (''score'', Num s)]) hits) h of
           (rs, h1) \<Rightarrow> alloc (Array rs) h1)"

subsection \<open>The search page\<close>

definition SearchPage_fuse_h :: "jsval \<Rightarrow> store \<Rightarrow> jsval \<times> store" where
  "SearchPage_fuse_h data h =
     (if \<not> truthy data then (Null, h)
      else (case array_map (\<lambda>p i. spread_with p ''index'' (Num (of_nat i)))
                   (get h data ''paragraphs'') h of
              (ds, h1) \<Rightarrow> new_Fuse ds h1))"

definition uniqueEntities_h ::
  "(string \<Rightarrow> string \<Rightarrow> int) \<Rightarrow> jsval \<Rightarrow> store \<Rightarrow> jsval \<times> store" where
  "uniqueEntities_h localeCompare data h =
     (if \<not> truthy data then alloc (Array []) h
      else (case array_map (\<lambda>e i h'. alloc (Array [get h' e ''value'', e]) h')
                   (get h data ''entities'') h of
              (pairs, h1) \<Rightarrow>
                (case new_Map pairs h1 of
                   (m, h2) \<Rightarrow>
                     (case Array_from_values m h2 of
                        (vs, h3) \<Rightarrow>
                          array_sort
                            (\<lambda>h' a b. localeCompare (str_of (get h' a ''value''))
                                        (str_of (get h' b ''value'')) \<le> 0)
                            vs h3))))"

text \<open>
  The stages of \<^verbatim>\<open>results\<close>: the matches, then the two filters (shared with the browse
  page, which names the field of the paragraph \<^verbatim>\<open>para\<close>), then the slice.
\<close>

definition SearchPage_matches_h :: "FuseMatcher \<Rightarrow> jsval \<Rightarrow> jsval \<Rightarrow> string \<Rightarrow> store \<Rightarrow> jsval \<times> store" where
  "SearchPage_matches_h matcher data fuse query h =
     (if trim query \<noteq> [] \<and> truthy fuse
      then (case Fuse_search matcher fuse query h of
              (hits, h1) \<Rightarrow>
                array_map
                  (\<lambda>r i h'. alloc (Object [(''paragraph'', get h' r ''item''),
                                           (''index'', get h' (get h' r ''item'') ''index'')]) h')
                  hits h1)
      else array_map (\<lambda>p i h'. alloc (Object [(''paragraph'', p), (''index'', Num (of_nat i))]) h')
             (get h data ''paragraphs'') h)"

definition filter_speaker_h :: "string \<Rightarrow> int option \<Rightarrow> jsval \<Rightarrow> store \<Rightarrow> jsval \<times> store" where
  "filter_speaker_h field filterSpeaker matches h =
     (case filterSpeaker of
        Some s \<Rightarrow>
          array_filter (\<lambda>h' m. get h' (get h' m field) ''speaker'' = Num (of_int s)) matches h
      | None \<Rightarrow> (matches, h))"

definition filter_entity_h :: "string \<Rightarrow> string \<Rightarrow> jsval \<Rightarrow> store \<Rightarrow> jsval \<times> store" where
  "filter_entity_h field filterEntity matches h =
     (if filterEntity \<noteq> []
      then array_filter
             (\<lambda>h' m. str_includes (toLowerCase (str_of (get h' (get h' m field) ''text'')))
                        (toLowerCase filterEntity))
             matches h
      else (matches, h))"

definition results_h ::
  "FuseMatcher \<Rightarrow> jsval \<Rightarrow> jsval \<Rightarrow> string \<Rightarrow> int option \<Rightarrow> string \<Rightarrow> store \<Rightarrow> jsval \<times> store" where
  "results_h matcher data fuse query filterSpeaker filterEntity h =
     (if \<not> truthy data then alloc (Array []) h
      else
        (case SearchPage_matches_h matcher data fuse query h of
           (matches, h1) \<Rightarrow>
             (case filter_speaker_h ''paragraph'' filterSpeaker matches h1 of
                (matches, h2) \<Rightarrow>
                  (case filter_entity_h ''paragraph'' filterEntity matches h2 of
                     (matches, h3) \<Rightarrow> array_slice 0 100 matches h3))))"

text \<open>One rendering of the page: the three memoised values, computed in order.\<close>

definition SearchPage_h ::
  "FuseMatcher \<Rightarrow> (string \<Rightarrow> string \<Rightarrow> int) \<Rightarrow> jsval \<Rightarrow> string \<Rightarrow> int option \<Rightarrow> string \<Rightarrow> store
     \<Rightarrow> (jsval \<times> jsval \<times> jsval) \<times> store" where
  "SearchPage_h matcher localeCompare data query filterSpeaker filterEntity h =
     (case SearchPage_fuse_h data h of
        (fuse, h1) \<Rightarrow>
          (case uniqueEntities_h localeCompare data h1 of
             (uniqueEntities, h2) \<Rightarrow>
               (case results_h matcher data fuse query filterSpeaker filterEntity h2 of
                  (rs, h3) \<Rightarrow> ((fuse, uniqueEntities, rs), h3))))"

subsection \<open>The transcript browse page\<close>

definition TranscriptContent_fuse_h :: "jsval \<Rightarrow> store \<Rightarrow> jsval \<times> store" where
  "TranscriptContent_fuse_h data h =
     (if \<not> truthy data then (Null, h)
      else (case array_map (\<lambda>p i. spread_with p ''_idx'' (Num (of_nat i)))
                   (get h data ''paragraphs'') h of
              (ds, h1) \<Rightarrow> new_Fuse ds h1))"

definition TranscriptContent_matches_h ::
  "FuseMatcher \<Rightarrow> jsval \<Rightarrow> jsval \<Rightarrow> string \<Rightarrow> store \<Rightarrow> jsval \<times> store" where
  "TranscriptContent_matches_h matcher data fuse query h =
     (if trim query \<noteq> [] \<and> truthy fuse
      then (case Fuse_search matcher fuse query h of
              (hits, h1) \<Rightarrow>
                array_map
                  (\<lambda>r i h'. alloc (Object [(''para'', get h' r ''item''),
                                           (''idx'', get h' (get h' r ''item'') ''_idx'')]) h')
                  hits h1)
      else array_map (\<lambda>p i h'. alloc (Object [(''para'', p), (''idx'', Num (of_nat i))]) h')
             (get h data ''paragraphs'') h)"

definition filtered_h ::
  "FuseMatcher \<Rightarrow> jsval \<Rightarrow> jsval \<Rightarrow> string \<Rightarrow> int option \<Rightarrow> string \<Rightarrow> store \<Rightarrow> jsval \<times> store" where
  "filtered_h matcher data fuse query filterSpeaker filterEntity h =
     (if \<not> truthy data then alloc (Array []) h
      else
        (case TranscriptContent_matches_h matcher data fuse query h of
           (rs, h1) \<Rightarrow>
             (case filter_speaker_h ''para'' filterSpeaker rs h1 of
                (rs, h2) \<Rightarrow> filter_entity_h ''para'' filterEntity rs h2)))"

definition TranscriptContent_h ::
  "FuseMatcher \<Rightarrow> (string \<Rightarrow> string \<Rightarrow> int) \<Rightarrow> jsval \<Rightarrow> string \<Rightarrow> int option \<Rightarrow> string \<Rightarrow> store
     \<Rightarrow> (jsval \<times> jsval \<times> jsval) \<times> store" where
  "TranscriptContent_h matcher localeCompare data query filterSpeaker filterEntity h =
     (case TranscriptContent_fuse_h data h of
        (fuse, h1) \<Rightarrow>
          (case uniqueEntities_h localeCompare data h1 of
             (uniqueEntities, h2) \<Rightarrow>
               (case filtered_h matcher data fuse query filterSpeaker filterEntity h2 of
                  (rs, h3) \<Rightarrow> ((fuse, uniqueEntities, rs), h3))))"

subsection \<open>Results that wrap the paragraphs\<close>

text \<open>
  The array \<open>v\<close> in the store \<open>h\<close> holds only objects created right after the store
  \<open>h0\<close>, one per element of \<open>ps\<close>, and the field \<open>f\<close> of each is that element.
\<close>

definition wraps :: "string \<Rightarrow> jsval list \<Rightarrow> store \<Rightarrow> jsval \<Rightarrow> store \<Rightarrow> bool" where
  "wraps f ps h0 v h =
     (length h0 + length ps \<le> length h
      \<and> (\<forall>i < length ps. \<exists>x. h ! (length h0 + i) = Object [(f, ps ! i), x])
      \<and> set (elements h v) \<subseteq> Ref ` {length h0..<length h0 + length ps})"


section \<open>The fuzzy matcher\<close>

text \<open>
  Modelled from the spec: the approximate matching and ranking behind \<^verbatim>\<open>fuse.search\<close>,
  which is code of the Fuse.js dependency and is not among the sources. The specification
  says: the text of a paragraph is normalised (lower-cased, white space collapsed); a
  paragraph matches if its normalised text contains the query as a contiguous substring or
  is similar enough under an edit-distance metric, allowing about 30 per cent divergence at
  the level of characters (the option \<^verbatim>\<open>threshold\<close>); the position of the match is ignored;
  hits are ordered by relevance, ties by position. The option \<^verbatim>\<open>minMatchCharLength\<close> is
  read as the least length of the stretch of text that is matched.
\<close>

fun collapse :: "bool \<Rightarrow> string \<Rightarrow> string" where
  "collapse prev [] = []"
| "collapse prev (c # cs) =
     (if isWhiteSpace c then (if prev then collapse True cs else CHR '' '' # collapse True cs)
      else c # collapse False cs)"

definition normalize_text :: "string \<Rightarrow> string" where
  "normalize_text s = collapse False (toLowerCase s)"

fun edit_distance :: "'a list \<Rightarrow> 'a list \<Rightarrow> nat" where
  "edit_distance [] ys = length ys"
| "edit_distance (x # xs) [] = Suc (length xs)"
| "edit_distance (x # xs) (y # ys) =
     min (min (Suc (edit_distance xs (y # ys))) (Suc (edit_distance (x # xs) ys)))
         (edit_distance xs ys + (if x = y then 0 else 1))"

text \<open>All contiguous stretches of a text, and the least distance of the query to one of them.\<close>

definition windows :: "'a list \<Rightarrow> 'a list list" where
  "windows t =
     concat (map (\<lambda>i. map (\<lambda>n. take n (drop i t)) [0..<Suc (length t - i)]) [0..<Suc (length t)])"

definition divergence :: "nat \<Rightarrow> string \<Rightarrow> string \<Rightarrow> nat" where
  "divergence least q t =
     fold min (map (edit_distance q) (filter (\<lambda>w. least \<le> length w) (windows t))) (length q)"

definition fuzzy_score :: "FuseOptions \<Rightarrow> string \<Rightarrow> string \<Rightarrow> rat option" where
  "fuzzy_score opts query s =
     (let q = normalize_text query;
          divergent = of_nat (divergence (minMatchCharLength opts) q (normalize_text s)) / of_nat (length q)
      in if q \<noteq> [] \<and> divergent \<le> threshold opts then Some divergent else None)"

text \<open>
  The search over the documents, whose text is read with \<open>key\<close>: the hits in the order of
  their scores, hits of equal score in the order of the documents.
\<close>

definition fuzzy_search :: "('d \<Rightarrow> string) \<Rightarrow> 'd FuseLib" where
  "fuzzy_search key opts ds query =
     sort_key score
       (concat (mapi (\<lambda>d i. case fuzzy_score opts query (key d) of
                               None \<Rightarrow> []
                             | Some s \<Rightarrow> [\<lparr>item = d, refIndex = i, score = s\<rparr>]) ds))"

section \<open>Example data\<close>

definition example_paragraph :: Paragraph where
  "example_paragraph =
     \<lparr>speaker = Some 1, start = 0, end = 1, num_words = 1, text = ''Ehud'', sentences = []\<rparr>"

definition transcript_of :: "Paragraph list \<Rightarrow> TranscriptData" where
  "transcript_of ps =
     \<lparr>metadata = \<lparr>duration = 0, channels = 1, model = []\<rparr>, summary = [], topics = [],
      entities = [], speakers = [], paragraphs = ps, words = [], full_transcript = []\<rparr>"

text \<open>A transcript of one paragraph, and one of 101 paragraphs, each with the text "Ehud".\<close>

definition short_transcript :: TranscriptData where
  "short_transcript = transcript_of [example_paragraph]"


definition long_transcript :: TranscriptData where
  "long_transcript = transcript_of (replicate 101 example_paragraph)"

definition no_hits :: "'d FuseLib" where
  "no_hits opts ds q = []"

definition example_transcript :: TranscriptData where
  "example_transcript =
     transcript_of
       [\<lparr>speaker = Some 0, start = 0, end = 4, num_words = 3, text = ''Hello Ehud Barak'',
          sentences = []\<rparr>,
        \<lparr>speaker = None, start = 4, end = 6, num_words = 2, text = ''ehud said'',
          sentences = []\<rparr>,
        \<lparr>speaker = Some 1, start = 6, end = 9, num_words = 3, text = ''the quick fox'',
          sentences = []\<rparr>]"

definition failing_backend :: "string \<Rightarrow> fetch_outcome" where
  "failing_backend question = Resolved \<lparr>ok = False, json = None\<rparr>"

definition asking_page :: AskPage where
  "asking_page = \<lparr>messages = [], input = '' who spoke? '', isLoading = False\<rparr>"

text \<open>A stand-in for the library that matches every document and prefers later ones.\<close>

definition later_first :: "'d FuseLib" where
  "later_first opts ds q =
     rev (mapi (\<lambda>d i. \<lparr>item = d, refIndex = i, score = of_nat (length ds - i)\<rparr>) ds)"

text \<open>
  A store that holds a transcript of two paragraphs and two entities with the same value:
  the sentences (0), the paragraphs (1, 2) and their array (3), the entities (4, 5) and
  their array (6), and the transcript itself (7).
\<close>

definition example_store :: store where
  "example_store =
     [Array [],
      Object [(''speaker'', Num 1), (''start'', Num 0), (''end'', Num 2), (''num_words'', Num 2),
              (''text'', Str ''Ehud spoke''), (''sentences'', Ref 0)],
      Object [(''speaker'', Null), (''start'', Num 2), (''end'', Num 3), (''num_words'', Num 1),
              (''text'', Str ''quietly''), (''sentences'', Ref 0)],
      Array [Ref 1, Ref 2],
      Object [(''label'', Str ''PER''), (''value'', Str ''Ehud''), (''confidence'', Num 1),
              (''start_word'', Num 0), (''end_word'', Num 1)],
      Object [(''label'', Str ''NAME''), (''value'', Str ''Ehud''), (''confidence'', Num 1),
              (''start_word'', Num 0), (''end_word'', Num 1)],
      Array [Ref 4, Ref 5],
      Object [(''summary'', Str []), (''entities'', Ref 6), (''speakers'', Undefined),
              (''paragraphs'', Ref 3)]]"

definition example_data :: jsval where
  "example_data = Ref 7"

text \<open>Stand-ins for the matcher (every document is a hit) and for \<^verbatim>\<open>localeCompare\<close>.\<close>

definition match_all :: FuseMatcher where
  "match_all opts texts q = map (\<lambda>i. (i, 0)) [0..<length texts]"

definition compare_lengths :: "string \<Rightarrow> string \<Rightarrow> int" where
  "compare_lengths a b = int (length a) - int (length b)"

section \<open>Lists and strings\<close>

lemma length_mapi: "length (mapi f xs) = length xs"
  by (simp add: mapi_def)

lemma nth_mapi: "i < length xs \<Longrightarrow> mapi f xs ! i = f (xs ! i) i"
  by (simp add: mapi_def nth_enumerate_eq)

lemma map_mapi: "map g (mapi f xs) = mapi (\<lambda>x i. g (f x i)) xs"
  by (simp add: mapi_def case_prod_unfold comp_def)

lemma mapi_fst: "mapi (\<lambda>x i. x) xs = xs"
  by (simp add: mapi_def case_prod_unfold enumerate_eq_zip)

lemma mapi_snd: "mapi (\<lambda>x i. i) xs = [0..<length xs]"
  by (simp add: mapi_def case_prod_unfold enumerate_eq_zip)

lemma startsWith_iff: "startsWith s t \<longleftrightarrow> (\<exists>suf. s = t @ suf)"
  by (induction s t rule: startsWith.induct) auto

lemma str_includes_iff: "str_includes s t \<longleftrightarrow> (\<exists>pre suf. s = pre @ t @ suf)"
proof (induction s)
  case Nil
  show ?case by auto
next
  case (Cons x s)
  show ?case
  proof
    assume "str_includes (x # s) t"
    then consider "startsWith (x # s) t" | "str_includes s t" by auto
    then show "\<exists>pre suf. x # s = pre @ t @ suf"
    proof cases
      case 1
      then obtain suf where "x # s = t @ suf" by (auto simp: startsWith_iff)
      then have "x # s = [] @ t @ suf" by simp
      then show ?thesis by blast
    next
      case 2
      then obtain pre suf where "s = pre @ t @ suf" using Cons.IH by blast
      then have "x # s = (x # pre) @ t @ suf" by simp
      then show ?thesis by blast
    qed
  next
    assume "\<exists>pre suf. x # s = pre @ t @ suf"
    then obtain pre suf where e: "x # s = pre @ t @ suf" by blast
    show "str_includes (x # s) t"
    proof (cases pre)
      case Nil
      with e have "startsWith (x # s) t" by (auto simp: startsWith_iff)
      then show ?thesis by simp
    next
      case (Cons y pre')
      with e have "s = pre' @ t @ suf" by simp
      then have "str_includes s t" using Cons.IH by blast
      then show ?thesis by simp
    qed
  qed
qed

lemma SearchPage_matches_blank:
  "trim query = [] \<Longrightarrow>
   SearchPage_matches lib d query = mapi (\<lambda>p i. \<lparr>paragraph = p, index = i\<rparr>) (paragraphs d)"
  by (simp add: SearchPage_matches_def)

lemma TranscriptContent_matches_blank:
  "trim query = [] \<Longrightarrow>
   TranscriptContent_matches lib d query = mapi (\<lambda>p i. \<lparr>para = p, idx = i\<rparr>) (paragraphs d)"
  by (simp add: TranscriptContent_matches_def)

lemma length_take_mono: "length xs \<le> length ys \<Longrightarrow> length (take n xs) \<le> length (take n ys)"
  by simp

lemma length_filter_conj_le: "length (filter (\<lambda>x. Q x \<and> P x) xs) \<le> length (filter P xs)"
proof -
  have "filter (\<lambda>x. Q x \<and> P x) xs = filter Q (filter P xs)"
    by (induction xs) auto
  then show ?thesis
    by (simp only: length_filter_le)
qed

lemma length_filter_conj_le2: "length (filter (\<lambda>x. P x \<and> Q x) xs) \<le> length (filter P xs)"
  using length_filter_conj_le [of Q P xs] by (simp add: conj_commute)

section \<open>The expression, split and test\<close>

lemma patternAtoms_plain:
  "c \<notin> set syntaxCharacters \<Longrightarrow> patternAtoms (c # rest) = map_option ((#) c) (patternAtoms rest)"
  by (cases rest) (auto simp: syntaxCharacters_def)

lemma patternAtoms_escaped:
  "c \<in> set syntaxCharacters \<Longrightarrow>
   patternAtoms (backslash # c # rest) = map_option ((#) c) (patternAtoms rest)"
  by simp

lemma patternAtoms_escapeRegExp: "patternAtoms (escapeRegExp query) = Some query"
proof (induction query)
  case Nil
  show ?case by (simp add: escapeRegExp_def)
next
  case (Cons c query)
  have e: "escapeRegExp (c # query) =
           (if c \<in> set syntaxCharacters then [backslash, c] else [c]) @ escapeRegExp query"
    by (simp add: escapeRegExp_def)
  show ?case
  proof (cases "c \<in> set syntaxCharacters")
    case True
    then show ?thesis
      using Cons.IH by (simp add: e patternAtoms_escaped del: patternAtoms.simps)
  next
    case False
    then show ?thesis
      using Cons.IH by (simp add: e patternAtoms_plain del: patternAtoms.simps)
  qed
qed

lemma new_RegExp_escaped:
  "new_RegExp (''('' @ escapeRegExp query @ '')'') = Some \<lparr>atoms = query, lastIndex = 0\<rparr>"
  by (simp add: new_RegExp_def patternAtoms_escapeRegExp butlast_append)

lemma trim_nonempty: "trim query \<noteq> [] \<Longrightarrow> query \<noteq> []"
  by (auto simp: trim_def)


lemma startsWith_take: "startsWith s t \<longleftrightarrow> length t \<le> length s \<and> take (length t) s = t"
proof
  assume "startsWith s t"
  then obtain suf where "s = t @ suf" by (auto simp: startsWith_iff)
  then show "length t \<le> length s \<and> take (length t) s = t" by simp
next
  assume a: "length t \<le> length s \<and> take (length t) s = t"
  then have "s = t @ drop (length t) s" by (metis append_take_drop_id)
  then show "startsWith s t" unfolding startsWith_iff by blast
qed

lemma matchesAt_iff:
  assumes "cs \<noteq> []"
  shows "matchesAt cs s i \<longleftrightarrow>
           i + length cs \<le> length s \<and> ci_equal (take (length cs) (drop i s)) cs"
proof -
  obtain c cs' where "cs = c # cs'"
    using assms by (cases cs) auto
  then show ?thesis
    by (auto simp: matchesAt_def startsWith_take ci_equal_def take_map)
qed

lemma ci_occurs_iff:
  assumes "cs \<noteq> []"
  shows "ci_occurs cs s \<longleftrightarrow> (\<exists>i. matchesAt cs s i)"
proof
  assume "ci_occurs cs s"
  then obtain pre suf where e: "map canonicalize s = pre @ map canonicalize cs @ suf"
    by (auto simp: ci_occurs_def str_includes_iff)
  then have "drop (length pre) (map canonicalize s) = map canonicalize cs @ suf"
    by simp
  then have "matchesAt cs s (length pre)"
    by (simp add: matchesAt_def startsWith_iff drop_map)
  then show "\<exists>i. matchesAt cs s i" ..
next
  assume "\<exists>i. matchesAt cs s i"
  then obtain i where "matchesAt cs s i" ..
  then obtain suf where "map canonicalize (drop i s) = map canonicalize cs @ suf"
    by (auto simp: matchesAt_def startsWith_iff)
  then have "map canonicalize s = map canonicalize (take i s) @ map canonicalize cs @ suf"
    by (metis append_take_drop_id map_append)
  then show "ci_occurs cs s"
    unfolding ci_occurs_def str_includes_iff by blast
qed

lemma matchesAt_substring:
  assumes "cs \<noteq> []" "a \<le> b" "b \<le> length s"
  shows "matchesAt cs (substring s a b) j \<longleftrightarrow> matchesAt cs s (a + j) \<and> a + j + length cs \<le> b"
proof -
  have l: "length (substring s a b) = b - a"
    using assms by (simp add: substring_def)
  show ?thesis
  proof (cases "a + j + length cs \<le> b")
    case True
    then have "take (length cs) (drop j (substring s a b)) = take (length cs) (drop (a + j) s)"
      using assms by (simp add: substring_def drop_take add.commute)
    moreover have "j + length cs \<le> b - a \<and> a + j + length cs \<le> length s"
      using True assms by arith
    ultimately show ?thesis
      using True assms by (simp add: matchesAt_iff l)
  next
    case False
    then have "\<not> j + length cs \<le> b - a"
      using assms by arith
    with False assms show ?thesis
      by (simp add: matchesAt_iff l)
  qed
qed

lemma substring_append:
  assumes "p \<le> q" "q \<le> e" "e \<le> length s"
  shows "substring s p q @ substring s q e = substring s p e"
proof -
  have "take (q - p) (drop p s) @ take (e - q) (drop (q - p) (drop p s)) = take ((q - p) + (e - q)) (drop p s)"
    by (simp only: take_add)
  moreover have "q - p + (e - q) = e - p" using assms by arith
  moreover have "p + (q - p) = q" using assms by arith
  ultimately show ?thesis
    by (simp add: substring_def add.commute)
qed

lemma substring_to_end: "substring s p (length s) = drop p s"
  by (simp add: substring_def)

lemma butlast_substring:
  assumes "q < e" "e \<le> length s"
  shows "butlast (substring s q e) = substring s q (e - 1)"
  using assms by (simp add: substring_def butlast_take)

lemma split_loop_marks:
  assumes "cs \<noteq> []" "p \<le> q" "q \<le> length s" "\<forall>i. p \<le> i \<and> i < q \<longrightarrow> \<not> matchesAt cs s i"
  shows "marks_occurrences cs (alternate (split_loop cs s p q))
       \<and> concat (split_loop cs s p q) = drop p s"
  using assms
proof (induction cs s p q rule: split_loop.induct)
  case (1 cs s p q)
  show ?case
  proof (cases "q < length s")
    case False
    with "1.prems" have q: "q = length s" by simp
    have "\<not> ci_occurs cs (substring s p (length s))"
    proof
      assume "ci_occurs cs (substring s p (length s))"
      then obtain j where "matchesAt cs (substring s p (length s)) j"
        using "1.prems"(1) by (auto simp: ci_occurs_iff)
      then have m: "matchesAt cs s (p + j)" and "p + j + length cs \<le> length s"
        using "1.prems" q by (simp_all add: matchesAt_substring)
      moreover have "0 < length cs" using "1.prems"(1) by simp
      ultimately have "p + j < q" using q by arith
      with m "1.prems"(4) show False by simp
    qed
    moreover have "split_loop cs s p q = [substring s p (length s)]"
      using False by (subst split_loop.simps) simp
    ultimately show ?thesis
      by (simp add: substring_to_end)
  next
    case True
    show ?thesis
    proof (cases "matchesAt cs s q")
      case False
      have "\<forall>i. p \<le> i \<and> i < q + 1 \<longrightarrow> \<not> matchesAt cs s i"
        using "1.prems"(4) False by (auto simp: less_Suc_eq)
      then have "marks_occurrences cs (alternate (split_loop cs s p (q + 1)))
                 \<and> concat (split_loop cs s p (q + 1)) = drop p s"
        using "1.IH"(3) [OF True False] "1.prems" True by simp
      moreover have "split_loop cs s p q = split_loop cs s p (q + 1)"
        using True False by (subst split_loop.simps) simp
      ultimately show ?thesis by simp
    next
      case m: True
      define e where "e = min (q + length cs) (length s)"
      have len: "0 < length cs" using "1.prems"(1) by simp
      have qe: "q + length cs \<le> length s" and eq: "ci_equal (take (length cs) (drop q s)) cs"
        using m "1.prems"(1) by (simp_all add: matchesAt_iff)
      have e: "e = q + length cs" using qe by (simp add: e_def)
      have ep: "e \<noteq> p" using e len "1.prems"(2) by arith
      have unf: "split_loop cs s p q = substring s p q # substring s q e # split_loop cs s e e"
        using True m ep by (subst split_loop.simps) (simp add: e_def Let_def)
      have none: "\<forall>i. e \<le> i \<and> i < e \<longrightarrow> \<not> matchesAt cs s i"
        by auto
      have ee: "e \<le> length s" using e qe by simp
      have ih: "marks_occurrences cs (alternate (split_loop cs s e e))
                \<and> concat (split_loop cs s e e) = drop e s"
        by (rule "1.IH"(2) [OF True m e_def ep "1.prems"(1) order_refl ee none])
      have mid: "substring s q e = take (length cs) (drop q s)"
        by (simp add: substring_def e)
      have "\<not> ci_occurs cs (substring s p q @ butlast (substring s q e))"
      proof
        assume "ci_occurs cs (substring s p q @ butlast (substring s q e))"
        moreover have "substring s p q @ butlast (substring s q e) = substring s p (e - 1)"
        proof -
          have "q < e" "q \<le> e - 1" "e - 1 \<le> length s" using e len qe by arith+
          then show ?thesis
            using "1.prems"(2) ee
            by (simp only: butlast_substring substring_append)
        qed
        ultimately obtain j where "matchesAt cs (substring s p (e - 1)) j"
          using "1.prems"(1) by (auto simp: ci_occurs_iff)
        moreover have "p \<le> e - 1" "e - 1 \<le> length s"
          using "1.prems"(2) e len qe by arith+
        ultimately have mj: "matchesAt cs s (p + j)" and "p + j + length cs \<le> e - 1"
          using "1.prems"(1) by (simp_all add: matchesAt_substring)
        then have "p + j < q" using e len by arith
        with mj "1.prems"(4) show False by simp
      qed
      moreover have "substring s p q @ substring s q e @ drop e s = drop p s"
      proof -
        have "substring s q e @ drop e s = drop q s"
          using e qe by (simp add: substring_def) (metis add.commute append_take_drop_id drop_drop)
        moreover have "substring s p q @ drop q s = drop p s"
          using "1.prems"(2) by (simp add: substring_def) (metis append_take_drop_id drop_drop le_add_diff_inverse2)
        ultimately show ?thesis by simp
      qed
      ultimately show ?thesis
        using ih eq by (simp add: unf mid)
    qed
  qed
qed

lemma ci_occurs_append: "ci_occurs cs u \<Longrightarrow> ci_occurs cs (u @ v)"
proof -
  assume "ci_occurs cs u"
  then obtain pre suf where "map canonicalize u = pre @ map canonicalize cs @ suf"
    by (auto simp: ci_occurs_def str_includes_iff)
  then have "map canonicalize (u @ v) = pre @ map canonicalize cs @ (suf @ map canonicalize v)"
    by simp
  then show ?thesis
    unfolding ci_occurs_def str_includes_iff by blast
qed

lemma exec_from_none:
  assumes "cs \<noteq> []" "\<not> ci_occurs cs u"
  shows "exec_from cs u i = None"
  using assms
proof (induction cs u i rule: exec_from.induct)
  case (1 cs s i)
  have "\<not> matchesAt cs s i"
    using "1.prems" by (auto simp: ci_occurs_iff)
  then show ?case
    using "1.IH" "1.prems" by (subst exec_from.simps) simp
qed

lemma exec_from_equal:
  assumes "cs \<noteq> []" "ci_equal m cs"
  shows "exec_from cs m 0 = Some (length cs)"
proof -
  have "length m = length cs"
    using assms(2) unfolding ci_equal_def by (rule map_eq_imp_length_eq)
  then have "matchesAt cs m 0"
    using assms by (simp add: matchesAt_iff)
  then show ?thesis
    by (subst exec_from.simps) simp
qed

lemma mark_parts_alternate:
  assumes "atoms regex = cs" "cs \<noteq> []" "marks_occurrences cs (alternate parts)"
  shows "mark_parts regex parts = alternate parts"
  using assms
proof (induction parts arbitrary: regex rule: alternate.induct)
  case 1
  then show ?case by simp
next
  case (2 u)
  then show ?case
    by (simp add: test_def exec_from_none)
next
  case (3 u m parts)
  from "3.prems" have u: "\<not> ci_occurs cs u" and m: "ci_equal m cs"
    and rest: "marks_occurrences cs (alternate parts)"
    using ci_occurs_append by auto
  have t1: "test regex u = (False, regex\<lparr>lastIndex := 0\<rparr>)"
    using "3.prems"(1,2) u by (simp add: test_def exec_from_none)
  have t2: "test (regex\<lparr>lastIndex := 0\<rparr>) m = (True, regex\<lparr>lastIndex := length cs\<rparr>)"
    using "3.prems"(1,2) m by (simp add: test_def exec_from_equal)
  have "mark_parts (regex\<lparr>lastIndex := length cs\<rparr>) parts = alternate parts"
    using "3.IH" [of "regex\<lparr>lastIndex := length cs\<rparr>"] "3.prems"(1,2) rest by simp
  then show ?case
    by (simp add: t1 t2)
qed

lemma concat_alternate: "concat (map fragment_text (alternate parts)) = concat parts"
  by (induction parts rule: alternate.induct) auto

lemma split_marks:
  assumes "cs \<noteq> []" "atoms regex = cs"
  shows "marks_occurrences cs (alternate (split s regex)) \<and> concat (split s regex) = s"
proof (cases "s = []")
  case True
  have "\<not> matchesAt cs [] 0"
    using assms(1) by (simp add: matchesAt_iff)
  moreover have "\<not> ci_occurs cs []"
    using assms(1) by (simp add: ci_occurs_def)
  ultimately show ?thesis
    using True assms(2) by (simp add: split_def)
next
  case False
  have "marks_occurrences cs (alternate (split_loop cs s 0 0)) \<and> concat (split_loop cs s 0 0) = drop 0 s"
    by (rule split_loop_marks) (use assms(1) in auto)
  then show ?thesis
    using False assms(2) by (simp add: split_def)
qed

lemma highlightText_nonblank:
  assumes "trim query \<noteq> []"
  shows "highlightText query txt = Some (alternate (split txt \<lparr>atoms = query, lastIndex = 0\<rparr>))"
proof -
  have q: "query \<noteq> []" using assms by (rule trim_nonempty)
  have "marks_occurrences query (alternate (split txt \<lparr>atoms = query, lastIndex = 0\<rparr>))"
    using split_marks [OF q, of "\<lparr>atoms = query, lastIndex = 0\<rparr>" "txt"] by simp
  then have "mark_parts \<lparr>atoms = query, lastIndex = 0\<rparr> (split txt \<lparr>atoms = query, lastIndex = 0\<rparr>)
             = alternate (split txt \<lparr>atoms = query, lastIndex = 0\<rparr>)"
    using q by (intro mark_parts_alternate [of _ query]) simp_all
  then show ?thesis
    using assms unfolding highlightText_def new_RegExp_escaped by simp
qed


section \<open>Matches, filters and ranking\<close>

lemma results_as_filter:
  "results lib (Some d) query filterSpeaker filterEntity =
     take 100
       (filter
          (\<lambda>m. (filterSpeaker = None \<or> Paragraph.speaker (paragraph m) = filterSpeaker)
              \<and> (filterEntity = [] \<or>
                   str_includes (toLowerCase (Paragraph.text (paragraph m)))
                     (toLowerCase filterEntity)))
          (SearchPage_matches lib d query))"
  unfolding results_def Let_def option.case
  by (cases filterSpeaker; cases "filterEntity = []") (simp_all add: conj_commute)

lemma filtered_as_filter:
  "filtered lib (Some d) query filterSpeaker filterEntity =
     filter
       (\<lambda>r. (filterSpeaker = None \<or> Paragraph.speaker (para r) = filterSpeaker)
           \<and> (filterEntity = [] \<or>
                str_includes (toLowerCase (Paragraph.text (para r))) (toLowerCase filterEntity)))
       (TranscriptContent_matches lib d query)"
  unfolding filtered_def Let_def option.case
  by (cases filterSpeaker; cases "filterEntity = []") (simp_all add: conj_commute)

lemma subseq_take_filter: "subseq (take n (filter P xs)) xs"
proof -
  have "subseq (take n (filter P xs)) (take n (filter P xs) @ drop n (filter P xs))"
    by (rule subseq_rev_drop_many) simp
  then have "subseq (take n (filter P xs)) (filter P xs)"
    by simp
  moreover have "subseq (filter P xs) xs"
    by simp
  ultimately show ?thesis
    by (rule subseq_order.trans)
qed

lemma SearchPage_docs_index:
  assumes "SearchPage_fuse (Some d) = Some fuse" "i < length (docs fuse)"
  shows "item_index (docs fuse ! i) = i"
  using assms by (auto simp: SearchPage_fuse_def nth_mapi length_mapi Paragraph.extend_def)

lemma TranscriptContent_docs_idx:
  assumes "TranscriptContent_fuse (Some d) = Some fuse" "i < length (docs fuse)"
  shows "item_idx (docs fuse ! i) = i"
  using assms by (auto simp: TranscriptContent_fuse_def nth_mapi length_mapi Paragraph.extend_def)

lemma SearchPage_matches_hits:
  assumes "trim query \<noteq> []" "SearchPage_fuse (Some d) = Some fuse"
    "fuse_ranked (docs fuse) (search lib fuse query)"
  shows "SearchPage_matches lib d query =
         map (\<lambda>r. \<lparr>paragraph = Paragraph.truncate (item r), index = refIndex r\<rparr>)
           (search lib fuse query)"
proof -
  have "item_index (item r) = refIndex r" if "r \<in> set (search lib fuse query)" for r
    using that assms(2,3) by (auto simp: fuse_ranked_def SearchPage_docs_index)
  then show ?thesis
    using assms(1,2) by (simp add: SearchPage_matches_def)
qed

lemma TranscriptContent_matches_hits:
  assumes "trim query \<noteq> []" "TranscriptContent_fuse (Some d) = Some fuse"
    "fuse_ranked (docs fuse) (search lib fuse query)"
  shows "TranscriptContent_matches lib d query =
         map (\<lambda>r. \<lparr>para = Paragraph.truncate (item r), idx = refIndex r\<rparr>)
           (search lib fuse query)"
proof -
  have "item_idx (item r) = refIndex r" if "r \<in> set (search lib fuse query)" for r
    using that assms(2,3) by (auto simp: fuse_ranked_def TranscriptContent_docs_idx)
  then show ?thesis
    using assms(1,2) by (simp add: TranscriptContent_matches_def)
qed

lemma ranked_subseq:
  assumes "fuse_ranked ds hits"
  shows "sorted_wrt ranked_before (take n (filter P hits))"
  using assms by (simp add: fuse_ranked_def sorted_wrt_filter)

lemma sorted_index_mapi:
  "sorted_wrt (<) (map index (take n (filter P (mapi (\<lambda>p i. \<lparr>paragraph = p, index = i\<rparr>) ps))))"
proof -
  have "sorted_wrt (<) (map index (mapi (\<lambda>p i. \<lparr>paragraph = p, index = i\<rparr>) ps))"
    by (simp add: map_mapi mapi_snd)
  then have "sorted_wrt (\<lambda>a b. index a < index b) (mapi (\<lambda>p i. \<lparr>paragraph = p, index = i\<rparr>) ps)"
    by (simp only: sorted_wrt_map)
  then have "sorted_wrt (\<lambda>a b. index a < index b) (take n (filter P (mapi (\<lambda>p i. \<lparr>paragraph = p, index = i\<rparr>) ps)))"
    by (simp add: sorted_wrt_filter)
  then show ?thesis
    by (simp only: sorted_wrt_map)
qed

lemma sorted_idx_mapi:
  "sorted_wrt (<) (map idx (filter P (mapi (\<lambda>p i. \<lparr>para = p, idx = i\<rparr>) ps)))"
proof -
  have "sorted_wrt (<) (map idx (mapi (\<lambda>p i. \<lparr>para = p, idx = i\<rparr>) ps))"
    by (simp add: map_mapi mapi_snd)
  then have "sorted_wrt (\<lambda>a b. idx a < idx b) (mapi (\<lambda>p i. \<lparr>para = p, idx = i\<rparr>) ps)"
    by (simp only: sorted_wrt_map)
  then have "sorted_wrt (\<lambda>a b. idx a < idx b) (filter P (mapi (\<lambda>p i. \<lparr>para = p, idx = i\<rparr>) ps))"
    by (simp add: sorted_wrt_filter)
  then show ?thesis
    by (simp only: sorted_wrt_map)
qed


lemma later_first_ranked: "fuse_ranked ds (later_first opts ds q)"
proof -
  let ?hit = "\<lambda>d i. \<lparr>item = d, refIndex = i, score = (of_nat (length ds - i) :: rat)\<rparr>"
  have "sorted_wrt (\<lambda>a b. ranked_before b a) (mapi ?hit ds)"
    unfolding sorted_wrt_iff_nth_less
    by (auto simp: nth_mapi length_mapi ranked_before_def)
  then have "sorted_wrt ranked_before (later_first opts ds q)"
    by (simp add: later_first_def sorted_wrt_rev)
  moreover have "\<forall>r \<in> set (later_first opts ds q). refIndex r < length ds \<and> item r = ds ! refIndex r"
    by (auto simp: later_first_def in_set_conv_nth nth_mapi length_mapi)
  ultimately show ?thesis
    by (simp add: fuse_ranked_def)
qed


section \<open>The store only grows\<close>

lemma prefix_alloc: "prefix h (snd (alloc ob h))"
  by (simp add: alloc_def)

lemma prefix_map_elements:
  assumes "\<And>x i h. prefix h (snd (f x i h))"
  shows "prefix h (snd (map_elements f xs i h))"
proof (induction xs arbitrary: i h)
  case Nil
  show ?case by simp
next
  case (Cons x xs)
  have "prefix h (snd (f x i h))" by (rule assms)
  also have "prefix (snd (f x i h)) (snd (map_elements f xs (Suc i) (snd (f x i h))))"
    by (rule Cons.IH)
  finally show ?case
    by (simp add: case_prod_unfold)
qed

lemma prefix_array_map:
  assumes "\<And>x i h. prefix h (snd (f x i h))"
  shows "prefix h (snd (array_map f arr h))"
proof -
  have "prefix h (snd (map_elements f (elements h arr) 0 h))"
    using assms by (rule prefix_map_elements)
  also have "prefix \<dots> (snd (alloc (Array (fst (map_elements f (elements h arr) 0 h))) (snd (map_elements f (elements h arr) 0 h))))"
    by (rule prefix_alloc)
  finally show ?thesis
    by (simp add: array_map_def case_prod_unfold)
qed

lemma prefix_array_filter: "prefix h (snd (array_filter P arr h))"
  by (simp add: array_filter_def prefix_alloc)

lemma prefix_array_slice: "prefix h (snd (array_slice i j arr h))"
  by (simp add: array_slice_def prefix_alloc)

lemma prefix_spread_with: "prefix h (snd (spread_with p k v h))"
  by (simp add: spread_with_def prefix_alloc)

lemma prefix_new_Fuse: "prefix h (snd (new_Fuse ds h))"
  by (simp add: new_Fuse_def prefix_alloc)

lemma prefix_new_Map: "prefix h (snd (new_Map pairs h))"
  by (simp add: new_Map_def prefix_alloc)

lemma prefix_alloc_all: "prefix h (snd (alloc_all obs h))"
proof (induction obs arbitrary: h)
  case Nil
  show ?case by simp
next
  case (Cons ob obs)
  have "prefix h (snd (alloc ob h))" by (rule prefix_alloc)
  also have "prefix \<dots> (snd (alloc_all obs (snd (alloc ob h))))" by (rule Cons.IH)
  finally show ?case by (simp add: case_prod_unfold)
qed

lemma prefix_Fuse_search: "prefix h (snd (Fuse_search matcher fuse query h))"
proof -
  let ?obs = "map (\<lambda>(i, s). Object [(''item'', elements h (get h fuse ''_docs'') ! i),
                                     (''refIndex'', Num (of_nat i)), (''score'', Num s)])
                (filter (\<lambda>(i, s). i < length (elements h (get h fuse ''_docs'')))
                   (matcher fuse_options
                      (map (\<lambda>d. str_of (get h d ''text'')) (elements h (get h fuse ''_docs''))) query))"
  have "prefix h (snd (alloc_all ?obs h))" by (rule prefix_alloc_all)
  also have "prefix \<dots> (snd (alloc (Array (fst (alloc_all ?obs h))) (snd (alloc_all ?obs h))))"
    by (rule prefix_alloc)
  finally show ?thesis
    by (simp add: Fuse_search_def Let_def case_prod_unfold)
qed

lemma prefix_list_update:
  assumes "prefix h0 h" "length h0 \<le> a"
  shows "prefix h0 (h[a := ob])"
proof -
  from assms(1) obtain t where "h = h0 @ t" by (auto simp: prefix_def)
  then have "h[a := ob] = h0 @ t[a - length h0 := ob]"
    using assms(2) by (simp add: list_update_append)
  then show ?thesis by simp
qed

lemma prefix_array_sort:
  assumes "prefix h0 h" "arr = Ref a" "length h0 \<le> a"
  shows "prefix h0 (snd (array_sort le arr h))"
  using assms by (auto simp: array_sort_def prefix_list_update split: option.splits jsobj.splits)

lemma prefix_SearchPage_fuse_h: "prefix h (snd (SearchPage_fuse_h data h))"
proof (cases "truthy data")
  case False
  then show ?thesis by (simp add: SearchPage_fuse_h_def)
next
  case True
  let ?m = "array_map (\<lambda>p i. spread_with p ''index'' (Num (of_nat i))) (get h data ''paragraphs'') h"
  have "prefix h (snd ?m)"
    by (rule prefix_array_map) (rule prefix_spread_with)
  also have "prefix \<dots> (snd (new_Fuse (fst ?m) (snd ?m)))"
    by (rule prefix_new_Fuse)
  finally show ?thesis
    using True by (simp add: SearchPage_fuse_h_def case_prod_unfold)
qed

lemma prefix_TranscriptContent_fuse_h: "prefix h (snd (TranscriptContent_fuse_h data h))"
proof (cases "truthy data")
  case False
  then show ?thesis by (simp add: TranscriptContent_fuse_h_def)
next
  case True
  let ?m = "array_map (\<lambda>p i. spread_with p ''_idx'' (Num (of_nat i))) (get h data ''paragraphs'') h"
  have "prefix h (snd ?m)"
    by (rule prefix_array_map) (rule prefix_spread_with)
  also have "prefix \<dots> (snd (new_Fuse (fst ?m) (snd ?m)))"
    by (rule prefix_new_Fuse)
  finally show ?thesis
    using True by (simp add: TranscriptContent_fuse_h_def case_prod_unfold)
qed

lemma prefix_uniqueEntities_h: "prefix h (snd (uniqueEntities_h localeCompare data h))"
proof (cases "truthy data")
  case False
  then show ?thesis by (simp add: uniqueEntities_h_def prefix_alloc)
next
  case True
  let ?m = "array_map (\<lambda>e i h'. alloc (Array [get h' e ''value'', e]) h') (get h data ''entities'') h"
  let ?n = "new_Map (fst ?m) (snd ?m)"
  let ?v = "Array_from_values (fst ?n) (snd ?n)"
  have 1: "prefix h (snd ?m)"
    by (rule prefix_array_map) (rule prefix_alloc)
  have 2: "prefix (snd ?m) (snd ?n)"
    by (rule prefix_new_Map)
  have 3: "prefix (snd ?n) (snd ?v)" and 4: "fst ?v = Ref (length (snd ?n))"
    by (simp_all add: Array_from_values_def alloc_def)
  have 5: "prefix h (snd ?v)"
    using 1 2 3 by (meson prefix_order.trans)
  have "length h \<le> length (snd ?n)"
    using 1 2 by (meson prefix_length_le prefix_order.trans)
  then have "prefix h (snd (array_sort
                            (\<lambda>h' a b. localeCompare (str_of (get h' a ''value''))
                                        (str_of (get h' b ''value'')) \<le> 0) (fst ?v) (snd ?v)))"
    using 5 4 by (intro prefix_array_sort) simp_all
  then show ?thesis
    using True by (simp add: uniqueEntities_h_def case_prod_unfold)
qed

lemma prefix_SearchPage_matches_h: "prefix h (snd (SearchPage_matches_h matcher data fuse query h))"
proof (cases "trim query \<noteq> [] \<and> truthy fuse")
  case True
  let ?s = "Fuse_search matcher fuse query h"
  have "prefix h (snd ?s)" by (rule prefix_Fuse_search)
  also have "prefix \<dots> (snd (array_map
                  (\<lambda>r i h'. alloc (Object [(''paragraph'', get h' r ''item''),
                                           (''index'', get h' (get h' r ''item'') ''index'')]) h')
                  (fst ?s) (snd ?s)))"
    by (rule prefix_array_map) (rule prefix_alloc)
  finally show ?thesis
    using True by (simp add: SearchPage_matches_h_def case_prod_unfold)
next
  case False
  have "prefix h (snd (array_map (\<lambda>p i h'. alloc (Object [(''paragraph'', p), (''index'', Num (of_nat i))]) h')
             (get h data ''paragraphs'') h))"
    by (rule prefix_array_map) (rule prefix_alloc)
  then show ?thesis
    using False by (auto simp: SearchPage_matches_h_def)
qed

lemma prefix_TranscriptContent_matches_h:
  "prefix h (snd (TranscriptContent_matches_h matcher data fuse query h))"
proof (cases "trim query \<noteq> [] \<and> truthy fuse")
  case True
  let ?s = "Fuse_search matcher fuse query h"
  have "prefix h (snd ?s)" by (rule prefix_Fuse_search)
  also have "prefix \<dots> (snd (array_map
                  (\<lambda>r i h'. alloc (Object [(''para'', get h' r ''item''),
                                           (''idx'', get h' (get h' r ''item'') ''_idx'')]) h')
                  (fst ?s) (snd ?s)))"
    by (rule prefix_array_map) (rule prefix_alloc)
  finally show ?thesis
    using True by (simp add: TranscriptContent_matches_h_def case_prod_unfold)
next
  case False
  have "prefix h (snd (array_map (\<lambda>p i h'. alloc (Object [(''para'', p), (''idx'', Num (of_nat i))]) h')
             (get h data ''paragraphs'') h))"
    by (rule prefix_array_map) (rule prefix_alloc)
  then show ?thesis
    using False by (auto simp: TranscriptContent_matches_h_def)
qed

lemma prefix_filter_speaker_h: "prefix h (snd (filter_speaker_h field filterSpeaker ms h))"
  by (cases filterSpeaker) (simp_all add: filter_speaker_h_def prefix_array_filter)

lemma prefix_filter_entity_h: "prefix h (snd (filter_entity_h field filterEntity ms h))"
  by (simp add: filter_entity_h_def prefix_array_filter)

lemma prefix_results_h:
  "prefix h (snd (results_h matcher data fuse query filterSpeaker filterEntity h))"
proof (cases "truthy data")
  case False
  then show ?thesis by (simp add: results_h_def prefix_alloc)
next
  case True
  let ?m = "SearchPage_matches_h matcher data fuse query h"
  let ?s = "filter_speaker_h ''paragraph'' filterSpeaker (fst ?m) (snd ?m)"
  let ?e = "filter_entity_h ''paragraph'' filterEntity (fst ?s) (snd ?s)"
  have "prefix h (snd ?m)" by (rule prefix_SearchPage_matches_h)
  also have "prefix \<dots> (snd ?s)" by (rule prefix_filter_speaker_h)
  also have "prefix \<dots> (snd ?e)" by (rule prefix_filter_entity_h)
  also have "prefix \<dots> (snd (array_slice 0 100 (fst ?e) (snd ?e)))" by (rule prefix_array_slice)
  finally show ?thesis
    using True by (simp add: results_h_def case_prod_unfold)
qed

lemma prefix_filtered_h:
  "prefix h (snd (filtered_h matcher data fuse query filterSpeaker filterEntity h))"
proof (cases "truthy data")
  case False
  then show ?thesis by (simp add: filtered_h_def prefix_alloc)
next
  case True
  let ?m = "TranscriptContent_matches_h matcher data fuse query h"
  let ?s = "filter_speaker_h ''para'' filterSpeaker (fst ?m) (snd ?m)"
  have "prefix h (snd ?m)" by (rule prefix_TranscriptContent_matches_h)
  also have "prefix \<dots> (snd ?s)" by (rule prefix_filter_speaker_h)
  also have "prefix \<dots> (snd (filter_entity_h ''para'' filterEntity (fst ?s) (snd ?s)))"
    by (rule prefix_filter_entity_h)
  finally show ?thesis
    using True by (simp add: filtered_h_def case_prod_unfold)
qed

lemma prefix_SearchPage_h:
  "prefix h (snd (SearchPage_h matcher localeCompare data query filterSpeaker filterEntity h))"
proof -
  let ?f = "SearchPage_fuse_h data h"
  let ?u = "uniqueEntities_h localeCompare data (snd ?f)"
  have "prefix h (snd ?f)" by (rule prefix_SearchPage_fuse_h)
  also have "prefix \<dots> (snd ?u)" by (rule prefix_uniqueEntities_h)
  also have "prefix \<dots> (snd (results_h matcher data (fst ?f) query filterSpeaker filterEntity (snd ?u)))"
    by (rule prefix_results_h)
  finally show ?thesis
    by (simp add: SearchPage_h_def case_prod_unfold)
qed

lemma prefix_TranscriptContent_h:
  "prefix h (snd (TranscriptContent_h matcher localeCompare data query filterSpeaker filterEntity h))"
proof -
  let ?f = "TranscriptContent_fuse_h data h"
  let ?u = "uniqueEntities_h localeCompare data (snd ?f)"
  have "prefix h (snd ?f)" by (rule prefix_TranscriptContent_fuse_h)
  also have "prefix \<dots> (snd ?u)" by (rule prefix_uniqueEntities_h)
  also have "prefix \<dots> (snd (filtered_h matcher data (fst ?f) query filterSpeaker filterEntity (snd ?u)))"
    by (rule prefix_filtered_h)
  finally show ?thesis
    by (simp add: TranscriptContent_h_def case_prod_unfold)
qed

lemma prefix_nth: "prefix h h' \<Longrightarrow> a < length h \<Longrightarrow> h' ! a = h ! a"
  by (auto simp: prefix_def nth_append)

lemma deref_append: "valid h v \<Longrightarrow> deref (h @ t) v = deref h v"
  by (cases v) (auto simp: deref_def valid_def nth_append)

lemma own_fields_append: "valid h v \<Longrightarrow> own_fields (h @ t) v = own_fields h v"
  by (simp add: own_fields_def deref_append)

lemma valid_append: "valid h v \<Longrightarrow> valid (h @ t) v"
  by (cases v) (auto simp: valid_def)

lemma map_elements_spread:
  assumes "\<forall>p \<in> set ps. valid h p"
  shows "map_elements (\<lambda>p i. spread_with p k (Num (of_nat i))) ps i0 h =
           (map Ref [length h..<length h + length ps],
            h @ map (\<lambda>(p, i). copy_with h k p i) (zip ps [i0..<i0 + length ps]))"
  using assms
proof (induction ps arbitrary: i0 h)
  case Nil
  show ?case by simp
next
  case (Cons p ps)
  let ?h1 = "h @ [copy_with h k p i0]"
  have v: "\<forall>q \<in> set ps. valid ?h1 q"
    using Cons.prems by (simp add: valid_append)
  have same: "\<forall>x \<in> set (zip ps js).
                (case x of (q, i) \<Rightarrow> copy_with ?h1 k q i) = (case x of (q, i) \<Rightarrow> copy_with h k q i)" for js
    using Cons.prems
    by (auto simp: copy_with_def own_fields_append dest!: set_zip_leftD)
  have step: "spread_with p k (Num (of_nat i0)) h = (Ref (length h), ?h1)"
    by (simp add: spread_with_def alloc_def copy_with_def)
  have up: "[i0..<i0 + length (p # ps)] = i0 # [Suc i0..<Suc i0 + length ps]"
    by (simp add: upt_rec)
  have up': "[length h..<length h + length (p # ps)] = length h # [length ?h1..<length ?h1 + length ps]"
    by (simp add: upt_rec)
  show ?case
    unfolding up up'
    by (simp add: step Cons.IH [OF v] same del: upt_Suc)
qed

lemma fuse_h_copies:
  assumes "\<forall>p \<in> set ps. valid h p"
    and "array_map (\<lambda>p i. spread_with p k (Num (of_nat i))) arr h = (ds, h1)"
    and "elements h arr = ps" and "new_Fuse ds h1 = (fuse, h2)"
  shows "elements h2 (get h2 fuse ''_docs'') = map Ref [length h..<length h + length ps]
       \<and> (\<forall>i < length ps.
            deref h2 (elements h2 (get h2 fuse ''_docs'') ! i) = Some (copy_with h k (ps ! i) i))"
proof -
  let ?copies = "map (\<lambda>(p, i). copy_with h k p i) (zip ps [0..<length ps])"
  let ?refs = "map Ref [length h..<length h + length ps]"
  have h1: "h1 = h @ ?copies @ [Array ?refs]" and ds: "ds = Ref (length h + length ps)"
    using assms(2) map_elements_spread [OF assms(1), of k 0]
    by (auto simp: array_map_def assms(3) alloc_def)
  have h2: "h2 = h @ ?copies @ [Array ?refs, Object [(''_docs'', ds)]]"
    and fuse: "fuse = Ref (length h + length ps + 1)"
    using assms(4) by (auto simp: new_Fuse_def alloc_def h1)
  have g: "get h2 fuse ''_docs'' = ds"
    by (simp add: get_def own_fields_def deref_def h2 fuse nth_append)
  have e: "elements h2 ds = ?refs"
    by (simp add: elements_def deref_def h2 ds nth_append)
  have "deref h2 (?refs ! i) = Some (copy_with h k (ps ! i) i)" if "i < length ps" for i
    using that by (simp add: deref_def h2 nth_append)
  then show ?thesis
    by (simp add: g e)
qed

lemma created_after_alloc: "created_after h (fst (alloc ob h))"
  by (simp add: created_after_def alloc_def)

lemma created_after_mono: "created_after h1 v \<Longrightarrow> prefix h h1 \<Longrightarrow> created_after h v"
  by (cases v) (auto simp: created_after_def dest: prefix_length_le)

lemma created_after_array_map:
  assumes "\<And>x i h. prefix h (snd (f x i h))"
  shows "created_after h (fst (array_map f arr h))"
proof -
  have "prefix h (snd (map_elements f (elements h arr) 0 h))"
    using assms by (rule prefix_map_elements)
  moreover have "created_after (snd (map_elements f (elements h arr) 0 h)) (fst (array_map f arr h))"
    by (simp add: array_map_def case_prod_unfold created_after_alloc)
  ultimately show ?thesis
    by (rule created_after_mono [rotated])
qed

lemma created_after_filter_speaker_h:
  "created_after h0 ms \<Longrightarrow> prefix h0 h \<Longrightarrow>
   created_after h0 (fst (filter_speaker_h field filterSpeaker ms h))"
  by (cases filterSpeaker)
     (auto simp: filter_speaker_h_def array_filter_def intro: created_after_mono created_after_alloc)

lemma created_after_filter_entity_h:
  "created_after h0 ms \<Longrightarrow> prefix h0 h \<Longrightarrow>
   created_after h0 (fst (filter_entity_h field filterEntity ms h))"
  by (auto simp: filter_entity_h_def array_filter_def intro: created_after_mono created_after_alloc)

lemma created_after_results_h:
  "created_after h (fst (results_h matcher data fuse query filterSpeaker filterEntity h))"
proof (cases "truthy data")
  case False
  then show ?thesis by (simp add: results_h_def created_after_alloc)
next
  case True
  let ?m = "SearchPage_matches_h matcher data fuse query h"
  let ?s = "filter_speaker_h ''paragraph'' filterSpeaker (fst ?m) (snd ?m)"
  let ?e = "filter_entity_h ''paragraph'' filterEntity (fst ?s) (snd ?s)"
  have "prefix h (snd ?m)" by (rule prefix_SearchPage_matches_h)
  also have "prefix \<dots> (snd ?s)" by (rule prefix_filter_speaker_h)
  also have "prefix \<dots> (snd ?e)" by (rule prefix_filter_entity_h)
  finally have "prefix h (snd ?e)" .
  moreover have "created_after (snd ?e) (fst (array_slice 0 100 (fst ?e) (snd ?e)))"
    by (simp add: array_slice_def created_after_alloc)
  ultimately have "created_after h (fst (array_slice 0 100 (fst ?e) (snd ?e)))"
    by (rule created_after_mono [rotated])
  then show ?thesis
    using True by (simp add: results_h_def case_prod_unfold)
qed

lemma created_after_TranscriptContent_matches_h:
  "created_after h (fst (TranscriptContent_matches_h matcher data fuse query h))"
proof (cases "trim query \<noteq> [] \<and> truthy fuse")
  case True
  let ?s = "Fuse_search matcher fuse query h"
  have "created_after (snd ?s) (fst (array_map
                  (\<lambda>r i h'. alloc (Object [(''para'', get h' r ''item''),
                                           (''idx'', get h' (get h' r ''item'') ''_idx'')]) h')
                  (fst ?s) (snd ?s)))"
    by (rule created_after_array_map) (rule prefix_alloc)
  moreover have "prefix h (snd ?s)" by (rule prefix_Fuse_search)
  ultimately show ?thesis
    using True by (simp add: TranscriptContent_matches_h_def case_prod_unfold created_after_mono)
next
  case False
  have "created_after h (fst (array_map (\<lambda>p i h'. alloc (Object [(''para'', p), (''idx'', Num (of_nat i))]) h')
             (get h data ''paragraphs'') h))"
    by (rule created_after_array_map) (rule prefix_alloc)
  then show ?thesis
    using False by (auto simp: TranscriptContent_matches_h_def)
qed

lemma created_after_filtered_h:
  "created_after h (fst (filtered_h matcher data fuse query filterSpeaker filterEntity h))"
proof (cases "truthy data")
  case False
  then show ?thesis by (simp add: filtered_h_def created_after_alloc)
next
  case True
  let ?m = "TranscriptContent_matches_h matcher data fuse query h"
  let ?s = "filter_speaker_h ''para'' filterSpeaker (fst ?m) (snd ?m)"
  have m: "created_after h (fst ?m)" by (rule created_after_TranscriptContent_matches_h)
  have pm: "prefix h (snd ?m)" by (rule prefix_TranscriptContent_matches_h)
  have s: "created_after h (fst ?s)"
    using m pm by (rule created_after_filter_speaker_h)
  have "prefix (snd ?m) (snd ?s)" by (rule prefix_filter_speaker_h)
  with pm have "prefix h (snd ?s)" by (rule prefix_order.trans)
  with s have "created_after h (fst (filter_entity_h ''para'' filterEntity (fst ?s) (snd ?s)))"
    by (rule created_after_filter_entity_h)
  then show ?thesis
    using True by (simp add: filtered_h_def case_prod_unfold)
qed

lemma example_paragraphs:
  "elements example_store (get example_store example_data ''paragraphs'') = [Ref 1, Ref 2]"
  by code_simp


lemma map_elements_wrap:
  "map_elements (\<lambda>p i h'. alloc (Object [(f, p), (g, Num (of_nat i))]) h') ps i0 h =
     (map Ref [length h..<length h + length ps],
      h @ map (\<lambda>(p, i). Object [(f, p), (g, Num (of_nat i))]) (zip ps [i0..<i0 + length ps]))"
proof -
  define F where "F = (\<lambda>p i h'. alloc (Object [(f, p), (g, Num (of_nat i))]) h')"
  have "map_elements F ps i0 h =
     (map Ref [length h..<length h + length ps],
      h @ map (\<lambda>(p, i). Object [(f, p), (g, Num (of_nat i))]) (zip ps [i0..<i0 + length ps]))"
  proof (induction ps arbitrary: i0 h)
    case Nil
    show ?case by simp
  next
    case (Cons p ps)
    let ?h1 = "h @ [Object [(f, p), (g, Num (of_nat i0))]]"
    have step: "F p i0 h = (Ref (length h), ?h1)"
      by (simp add: F_def alloc_def)
    have up: "[i0..<i0 + length (p # ps)] = i0 # [Suc i0..<Suc i0 + length ps]"
      by (simp add: upt_rec)
    have up': "[length h..<length h + length (p # ps)] = length h # [length ?h1..<length ?h1 + length ps]"
      by (simp add: upt_rec)
    show ?case
      unfolding up up'
      by (simp add: step Cons.IH del: upt_Suc)
  qed
  then show ?thesis
    by (simp add: F_def)
qed

lemma wraps_array_map:
  assumes "array_map (\<lambda>p i h'. alloc (Object [(f, p), (g, Num (of_nat i))]) h') arr h = (v, h1)"
    and "elements h arr = ps"
  shows "wraps f ps h v h1"
proof -
  let ?ws = "map (\<lambda>(p, i). Object [(f, p), (g, Num (of_nat i))]) (zip ps [0..<length ps])"
  have h1: "h1 = h @ ?ws @ [Array (map Ref [length h..<length h + length ps])]"
    and v: "v = Ref (length h + length ps)"
    using assms unfolding array_map_def map_elements_wrap by (auto simp: alloc_def)
  have "elements h1 v = map Ref [length h..<length h + length ps]"
    by (simp add: elements_def deref_def h1 v nth_append)
  moreover have "\<exists>x. h1 ! (length h + i) = Object [(f, ps ! i), x]" if "i < length ps" for i
    using that by (simp add: h1 nth_append)
  ultimately show ?thesis
    by (auto simp: wraps_def h1)
qed

lemma wraps_alloc_subset:
  assumes "wraps f ps h0 v h" "set xs \<subseteq> set (elements h v)"
  shows "wraps f ps h0 (fst (alloc (Array xs) h)) (snd (alloc (Array xs) h))"
proof -
  have "elements (h @ [Array xs]) (Ref (length h)) = xs"
    by (simp add: elements_def deref_def)
  then show ?thesis
    using assms by (auto simp: wraps_def alloc_def nth_append)
qed

lemma wraps_filter_speaker_h:
  assumes "wraps f ps h0 v h"
  shows "wraps f ps h0 (fst (filter_speaker_h field filterSpeaker v h))
           (snd (filter_speaker_h field filterSpeaker v h))"
proof (cases filterSpeaker)
  case None
  then show ?thesis using assms by (simp add: filter_speaker_h_def)
next
  case (Some s)
  then show ?thesis
    using assms by (simp add: filter_speaker_h_def array_filter_def wraps_alloc_subset)
qed

lemma wraps_filter_entity_h:
  assumes "wraps f ps h0 v h"
  shows "wraps f ps h0 (fst (filter_entity_h field filterEntity v h))
           (snd (filter_entity_h field filterEntity v h))"
  using assms by (simp add: filter_entity_h_def array_filter_def wraps_alloc_subset)

lemma wraps_array_slice:
  assumes "wraps f ps h0 v h"
  shows "wraps f ps h0 (fst (array_slice i j v h)) (snd (array_slice i j v h))"
proof -
  have "set (take (j - i) (drop i (elements h v))) \<subseteq> set (elements h v)"
    by (meson set_take_subset set_drop_subset subset_trans)
  then show ?thesis
    using assms by (simp add: array_slice_def wraps_alloc_subset)
qed

lemma wraps_get:
  assumes "wraps f ps h0 v h" "m \<in> set (elements h v)"
  shows "get h m f \<in> set ps"
proof -
  from assms obtain j where j: "length h0 \<le> j" "j < length h0 + length ps" and mj: "m = Ref j"
    by (auto simp: wraps_def)
  define i where "i = j - length h0"
  have i: "i < length ps" and m: "m = Ref (length h0 + i)"
    using j mj by (simp_all add: i_def)
  from assms(1) i obtain x where "h ! (length h0 + i) = Object [(f, ps ! i), x]"
    by (auto simp: wraps_def)
  moreover have "length h0 + i < length h"
    using assms(1) i by (simp add: wraps_def)
  ultimately have "get h m f = ps ! i"
    by (simp add: get_def own_fields_def deref_def m)
  then show ?thesis
    using i by simp
qed

lemma results_h_blank:
  assumes "trim query = []" "truthy data"
  shows "wraps ''paragraph'' (elements h (get h data ''paragraphs'')) h
           (fst (results_h matcher data fuse query filterSpeaker filterEntity h))
           (snd (results_h matcher data fuse query filterSpeaker filterEntity h))"
proof -
  let ?ps = "elements h (get h data ''paragraphs'')"
  let ?m = "SearchPage_matches_h matcher data fuse query h"
  let ?s = "filter_speaker_h ''paragraph'' filterSpeaker (fst ?m) (snd ?m)"
  let ?e = "filter_entity_h ''paragraph'' filterEntity (fst ?s) (snd ?s)"
  have "?m = array_map (\<lambda>p i h'. alloc (Object [(''paragraph'', p), (''index'', Num (of_nat i))]) h')
             (get h data ''paragraphs'') h"
    using assms(1) by (simp add: SearchPage_matches_h_def)
  then have "wraps ''paragraph'' ?ps h (fst ?m) (snd ?m)"
    by (intro wraps_array_map [of _ "''index''" "get h data ''paragraphs''" h]) simp_all
  then have "wraps ''paragraph'' ?ps h (fst ?s) (snd ?s)"
    by (rule wraps_filter_speaker_h)
  then have "wraps ''paragraph'' ?ps h (fst ?e) (snd ?e)"
    by (rule wraps_filter_entity_h)
  then have "wraps ''paragraph'' ?ps h (fst (array_slice 0 100 (fst ?e) (snd ?e)))
               (snd (array_slice 0 100 (fst ?e) (snd ?e)))"
    by (rule wraps_array_slice)
  then show ?thesis
    using assms(2) by (simp add: results_h_def case_prod_unfold)
qed

lemma filtered_h_blank:
  assumes "trim query = []" "truthy data"
  shows "wraps ''para'' (elements h (get h data ''paragraphs'')) h
           (fst (filtered_h matcher data fuse query filterSpeaker filterEntity h))
           (snd (filtered_h matcher data fuse query filterSpeaker filterEntity h))"
proof -
  let ?ps = "elements h (get h data ''paragraphs'')"
  let ?m = "TranscriptContent_matches_h matcher data fuse query h"
  let ?s = "filter_speaker_h ''para'' filterSpeaker (fst ?m) (snd ?m)"
  have "?m = array_map (\<lambda>p i h'. alloc (Object [(''para'', p), (''idx'', Num (of_nat i))]) h')
             (get h data ''paragraphs'') h"
    using assms(1) by (simp add: TranscriptContent_matches_h_def)
  then have "wraps ''para'' ?ps h (fst ?m) (snd ?m)"
    by (intro wraps_array_map [of _ "''idx''" "get h data ''paragraphs''" h]) simp_all
  then have "wraps ''para'' ?ps h (fst ?s) (snd ?s)"
    by (rule wraps_filter_speaker_h)
  then have "wraps ''para'' ?ps h (fst (filter_entity_h ''para'' filterEntity (fst ?s) (snd ?s)))
               (snd (filter_entity_h ''para'' filterEntity (fst ?s) (snd ?s)))"
    by (rule wraps_filter_entity_h)
  then show ?thesis
    using assms(2) by (simp add: filtered_h_def case_prod_unfold)
qed

section \<open>Properties of the fuzzy matcher\<close>

lemma collapse_plain:
  assumes "\<forall>c \<in> set w. \<not> isWhiteSpace c" "w \<noteq> []"
  shows "collapse prev (w @ b) = w @ collapse False b"
  using assms
proof (induction w arbitrary: prev)
  case Nil
  then show ?case by simp
next
  case (Cons c w)
  show ?case
  proof (cases "w = []")
    case True
    with Cons.prems show ?thesis by simp
  next
    case False
    with Cons show ?thesis by simp
  qed
qed

lemma collapse_keeps:
  assumes "\<forall>c \<in> set w. \<not> isWhiteSpace c" "w \<noteq> []"
  shows "\<exists>pre. collapse prev (a @ w @ b) = pre @ w @ collapse False b"
proof (induction a arbitrary: prev)
  case Nil
  have "collapse prev (w @ b) = [] @ w @ collapse False b"
    using assms by (simp add: collapse_plain)
  then show ?case by auto
next
  case (Cons c a)
  obtain pre1 where 1: "collapse True (a @ w @ b) = pre1 @ w @ collapse False b"
    using Cons.IH by blast
  obtain pre2 where 2: "collapse False (a @ w @ b) = pre2 @ w @ collapse False b"
    using Cons.IH by blast
  show ?case
  proof (cases "isWhiteSpace c")
    case True
    show ?thesis
    proof (cases prev)
      case True
      with \<open>isWhiteSpace c\<close> 1 show ?thesis by auto
    next
      case False
      with \<open>isWhiteSpace c\<close> 1 have "collapse prev ((c # a) @ w @ b) = (CHR '' '' # pre1) @ w @ collapse False b"
        by simp
      then show ?thesis by blast
    qed
  next
    case False
    with 2 have "collapse prev ((c # a) @ w @ b) = (c # pre2) @ w @ collapse False b"
      by simp
    then show ?thesis by blast
  qed
qed

lemma normalize_Ehud: "\<exists>pre suf. normalize_text (a @ ''Ehud'' @ b) = pre @ ''ehud'' @ suf"
proof -
  have l: "toLowerCase (a @ ''Ehud'' @ b) = toLowerCase a @ ''ehud'' @ toLowerCase b"
    by (simp add: toLowerCase_def toLowerChar_def char_of_def bit_Suc_0_iff)
  have w: "\<forall>c \<in> set ''ehud''. \<not> isWhiteSpace c"
    by (simp add: isWhiteSpace_def)
  obtain pre where "collapse False (toLowerCase a @ ''ehud'' @ toLowerCase b)
                    = pre @ ''ehud'' @ collapse False (toLowerCase b)"
    using collapse_keeps [OF w, of False "toLowerCase a" "toLowerCase b"] by auto
  then show ?thesis
    unfolding normalize_text_def l by blast
qed

lemma window_in_windows:
  assumes "i \<le> length t" "n \<le> length t - i"
  shows "take n (drop i t) \<in> set (windows t)"
proof -
  have i: "i \<in> set [0..<Suc (length t)]"
    using assms(1) by (simp only: set_upt atLeastLessThan_iff less_Suc_eq_le) simp
  have n: "n \<in> set [0..<Suc (length t - i)]"
    using assms(2) by (simp only: set_upt atLeastLessThan_iff less_Suc_eq_le) simp
  have "take n (drop i t) \<in> set (map (\<lambda>n. take n (drop i t)) [0..<Suc (length t - i)])"
    using n by (simp only: set_map) (rule imageI)
  moreover have "map (\<lambda>n. take n (drop i t)) [0..<Suc (length t - i)]
                 \<in> set (map (\<lambda>i. map (\<lambda>n. take n (drop i t)) [0..<Suc (length t - i)]) [0..<Suc (length t)])"
    using i by (simp only: set_map) (rule imageI)
  ultimately show ?thesis
    unfolding windows_def set_concat by (rule UN_I [rotated])
qed


lemma fold_min_le: "fold min xs (a::nat) \<le> a"
proof (induction xs arbitrary: a)
  case Nil
  show ?case by simp
next
  case (Cons x xs)
  have "fold min xs (min x a) \<le> min x a" by (rule Cons.IH)
  then show ?case by simp
qed

lemma fold_min_le_elem: "x \<in> set xs \<Longrightarrow> fold min xs (a::nat) \<le> x"
proof (induction xs arbitrary: a)
  case Nil
  then show ?case by simp
next
  case (Cons y xs)
  show ?case
  proof (cases "x = y")
    case True
    have "fold min xs (min y a) \<le> min y a" by (rule fold_min_le)
    then show ?thesis using True by simp
  next
    case False
    with Cons show ?thesis by simp
  qed
qed

lemma divergence_le:
  assumes "w \<in> set (windows t)" "least \<le> length w"
  shows "divergence least q t \<le> edit_distance q w"
  unfolding divergence_def using assms by (intro fold_min_le_elem) simp

lemma divergence_Ehud: "divergence 2 ''ehdu'' (pre @ ''ehud'' @ suf) \<le> 1"
proof -
  let ?t = "pre @ ''ehud'' @ suf"
  have "take 3 (drop (length pre) ?t) \<in> set (windows ?t)"
    by (rule window_in_windows) simp_all
  then have "''ehu'' \<in> set (windows ?t)" by simp
  then have "divergence 2 ''ehdu'' ?t \<le> edit_distance ''ehdu'' ''ehu''"
    by (rule divergence_le) simp
  also have "edit_distance ''ehdu'' ''ehu'' = 1" by simp
  finally show ?thesis .
qed

lemma normalize_Ehdu: "normalize_text ''Ehdu'' = ''ehdu''"
  by (simp add: normalize_text_def toLowerCase_def toLowerChar_def char_of_def bit_Suc_0_iff isWhiteSpace_def)

lemma fuzzy_score_Ehud:
  assumes "s = a @ ''Ehud'' @ b"
  shows "\<exists>x. fuzzy_score fuse_options ''Ehdu'' s = Some x"
proof -
  obtain pre suf where n: "normalize_text s = pre @ ''ehud'' @ suf"
    using normalize_Ehud assms by blast
  have "divergence 2 ''ehdu'' (normalize_text s) \<le> 1"
    unfolding n by (rule divergence_Ehud)
  then have "(of_nat (divergence 2 ''ehdu'' (normalize_text s)) :: rat) \<le> 1"
    by simp
  then have "(of_nat (divergence 2 ''ehdu'' (normalize_text s)) :: rat) / 4 \<le> 3 / 10"
    by simp
  then have "fuzzy_score fuse_options ''Ehdu'' s
             = Some (of_nat (divergence 2 ''ehdu'' (normalize_text s)) / 4)"
    by (simp add: fuzzy_score_def fuse_options_def normalize_Ehdu Let_def)
  then show ?thesis ..
qed

lemma mapi_cong: "(\<And>x i. x \<in> set xs \<Longrightarrow> f x i = g x i) \<Longrightarrow> mapi f xs = mapi g xs"
  unfolding mapi_def by (rule map_cong) (auto simp: in_set_enumerate_eq)

lemma concat_mapi_single: "concat (mapi (\<lambda>x i. [f x i]) xs) = mapi f xs"
  by (simp add: mapi_def case_prod_unfold comp_def concat_map_singleton)

lemma length_concat_mapi_le:
  assumes "\<And>x i. length (f x i) \<le> 1"
  shows "length (concat (mapi f xs)) \<le> length xs"
proof -
  have "sum_list (map length (map (\<lambda>(i, x). f x i) ys)) \<le> length ys" for ys
  proof (induction ys)
    case Nil
    show ?case by simp
  next
    case (Cons y ys)
    have "length (f (snd y) (fst y)) \<le> 1" by (rule assms)
    with Cons show ?case by (simp add: case_prod_unfold)
  qed
  from this [of "enumerate 0 xs"] show ?thesis
    by (simp add: mapi_def length_concat)
qed

lemma fuzzy_search_hit:
  assumes "i < length ds" "fuzzy_score opts q (key (ds ! i)) = Some s"
  shows "\<lparr>item = ds ! i, refIndex = i, score = s\<rparr> \<in> set (fuzzy_search key opts ds q)"
proof -
  let ?F = "\<lambda>d i. case fuzzy_score opts q (key d) of
                    None \<Rightarrow> []
                  | Some s \<Rightarrow> [\<lparr>item = d, refIndex = i, score = s\<rparr>]"
  have "mapi ?F ds ! i \<in> set (mapi ?F ds)"
    using assms(1) by (simp add: length_mapi)
  then have "[\<lparr>item = ds ! i, refIndex = i, score = s\<rparr>] \<in> set (mapi ?F ds)"
    using assms by (simp add: nth_mapi)
  then have "\<lparr>item = ds ! i, refIndex = i, score = s\<rparr> \<in> set (concat (mapi ?F ds))"
    unfolding set_concat by (rule UN_I) simp
  then show ?thesis
    by (simp add: fuzzy_search_def)
qed

lemma length_fuzzy_search: "length (fuzzy_search key opts ds q) \<le> length ds"
  unfolding fuzzy_search_def length_sort
  by (rule length_concat_mapi_le) (simp split: option.split)

lemma fuzzy_search_all:
  assumes "\<And>d. d \<in> set ds \<Longrightarrow> fuzzy_score opts q (key d) = Some s"
  shows "fuzzy_search key opts ds q = mapi (\<lambda>d i. \<lparr>item = d, refIndex = i, score = s\<rparr>) ds"
proof -
  let ?h = "\<lambda>d i. \<lparr>item = d, refIndex = i, score = s\<rparr>"
  have "mapi (\<lambda>d i. case fuzzy_score opts q (key d) of
                       None \<Rightarrow> []
                     | Some s \<Rightarrow> [\<lparr>item = d, refIndex = i, score = s\<rparr>]) ds
        = mapi (\<lambda>d i. [?h d i]) ds"
    by (rule mapi_cong) (simp add: assms)
  then have c: "fuzzy_search key opts ds q = sort_key score (mapi ?h ds)"
    by (simp add: fuzzy_search_def concat_mapi_single)
  have "map score (mapi ?h ds) = replicate (length ds) s"
    by (simp add: map_mapi mapi_def case_prod_unfold comp_def map_replicate_const)
  then have "sorted (map score (mapi ?h ds))"
    by simp
  then show ?thesis
    unfolding c by (rule sort_key_id_if_sorted)
qed

lemma SearchPage_doc_text:
  "i < length ps \<Longrightarrow>
   Paragraph.text (mapi (\<lambda>p i. Paragraph.extend p \<lparr>item_index = i\<rparr>) ps ! i) = Paragraph.text (ps ! i)"
  by (simp add: nth_mapi Paragraph.extend_def)

lemma TranscriptContent_doc_text:
  "i < length ps \<Longrightarrow>
   Paragraph.text (mapi (\<lambda>p i. Paragraph.extend p \<lparr>item_idx = i\<rparr>) ps ! i) = Paragraph.text (ps ! i)"
  by (simp add: nth_mapi Paragraph.extend_def)

lemma SearchPage_doc_positions:
  "mapi (\<lambda>d i. item_index d) (mapi (\<lambda>p i. Paragraph.extend p \<lparr>item_index = i\<rparr>) ps) = [0..<length ps]"
proof (rule nth_equalityI)
  show "length (mapi (\<lambda>d i. item_index d) (mapi (\<lambda>p i. Paragraph.extend p \<lparr>item_index = i\<rparr>) ps))
        = length [0..<length ps]"
    by (simp add: length_mapi)
next
  fix i
  assume "i < length (mapi (\<lambda>d i. item_index d) (mapi (\<lambda>p i. Paragraph.extend p \<lparr>item_index = i\<rparr>) ps))"
  then have i: "i < length ps"
    by (simp add: length_mapi)
  then have "mapi (\<lambda>d i. item_index d) (mapi (\<lambda>p i. Paragraph.extend p \<lparr>item_index = i\<rparr>) ps) ! i
             = item_index (Paragraph.extend (ps ! i) \<lparr>item_index = i\<rparr>)"
    by (simp add: nth_mapi length_mapi)
  also have "\<dots> = i"
    by (simp add: Paragraph.extend_def)
  finally show "mapi (\<lambda>d i. item_index d) (mapi (\<lambda>p i. Paragraph.extend p \<lparr>item_index = i\<rparr>) ps) ! i
                = [0..<length ps] ! i"
    using i by simp
qed


lemma fold_min_in: "fold min xs (a::nat) \<in> insert a (set xs)"
proof (induction xs arbitrary: a)
  case Nil
  show ?case by simp
next
  case (Cons x xs)
  have "fold min xs (min x a) \<in> insert (min x a) (set xs)" by (rule Cons.IH)
  moreover have "min x a = x \<or> min x a = a" by (simp add: min_def)
  ultimately show ?case by auto
qed

lemma fuzzy_score_far:
  assumes "\<forall>w \<in> set (windows (normalize_text s)). minMatchCharLength opts \<le> length w \<longrightarrow>
             threshold opts * of_nat (length (normalize_text query))
               < of_nat (edit_distance (normalize_text query) w)"
    and "threshold opts < 1"
  shows "fuzzy_score opts query s = None"
proof (cases "normalize_text query = []")
  case True
  then show ?thesis by (simp add: fuzzy_score_def)
next
  case False
  let ?q = "normalize_text query"
  let ?d = "divergence (minMatchCharLength opts) ?q (normalize_text s)"
  have q: "(0::rat) < of_nat (length ?q)" using False by simp
  have "?d \<in> insert (length ?q)
                (set (map (edit_distance ?q)
                   (filter (\<lambda>w. minMatchCharLength opts \<le> length w) (windows (normalize_text s)))))"
    unfolding divergence_def by (rule fold_min_in)
  then consider "?d = length ?q"
    | w where "w \<in> set (windows (normalize_text s))" "minMatchCharLength opts \<le> length w"
        "?d = edit_distance ?q w"
    by auto
  then have "threshold opts * of_nat (length ?q) < of_nat ?d"
  proof cases
    case 1
    have "threshold opts * of_nat (length ?q) < 1 * of_nat (length ?q)"
      using assms(2) q by (intro mult_strict_right_mono)
    then show ?thesis using 1 by simp
  next
    case 2
    then show ?thesis using assms(1) by simp
  qed
  then have "\<not> of_nat ?d / of_nat (length ?q) \<le> threshold opts"
    using q by (simp add: pos_divide_le_eq not_le)
  then show ?thesis
    by (simp add: fuzzy_score_def Let_def)
qed

lemma fuzzy_search_none:
  assumes "\<And>d. d \<in> set ds \<Longrightarrow> fuzzy_score opts q (key d) = None"
  shows "fuzzy_search key opts ds q = []"
proof -
  have e: "mapi (\<lambda>d i. case fuzzy_score opts q (key d) of
                       None \<Rightarrow> []
                     | Some s \<Rightarrow> [\<lparr>item = d, refIndex = i, score = s\<rparr>]) ds
        = mapi (\<lambda>d i. []) ds"
    by (rule mapi_cong) (simp add: assms)
  have c: "concat (mapi (\<lambda>d i. []) ds) = ([] :: 'a FuseResult list)"
    by (simp add: mapi_def)
  show ?thesis
    unfolding fuzzy_search_def e c by simp
qed

lemma in_set_mapiE:
  assumes "y \<in> set (mapi f xs)"
  obtains i where "i < length xs" "y = f (xs ! i) i"
  using assms by (auto simp: in_set_conv_nth length_mapi nth_mapi)


lemma edit_distance_ge: "length xs - length ys \<le> edit_distance xs ys"
  by (induction xs ys rule: edit_distance.induct) auto

lemma length_window: "w \<in> set (windows t) \<Longrightarrow> length w \<le> length t"
  unfolding windows_def by (auto simp del: upt_Suc)

lemma far_example:
  "\<forall>p \<in> set (paragraphs short_transcript).
     \<forall>w \<in> set (windows (normalize_text (Paragraph.text p))).
       2 \<le> length w \<longrightarrow>
       3 * length (normalize_text ''zzqqxxwwvv'') < 10 * edit_distance (normalize_text ''zzqqxxwwvv'') w"
proof (intro ballI impI)
  fix p w
  assume "p \<in> set (paragraphs short_transcript)"
  then have "normalize_text (Paragraph.text p) = ''ehud''"
    by (simp add: short_transcript_def transcript_of_def example_paragraph_def normalize_text_def
        toLowerCase_def toLowerChar_def char_of_def bit_Suc_0_iff isWhiteSpace_def)
  moreover assume "w \<in> set (windows (normalize_text (Paragraph.text p)))"
  ultimately have "length w \<le> 4"
    using length_window [of w "''ehud''"] by simp
  moreover have q: "normalize_text ''zzqqxxwwvv'' = ''zzqqxxwwvv''"
    by (simp add: normalize_text_def toLowerCase_def toLowerChar_def isWhiteSpace_def)
  moreover have "length ''zzqqxxwwvv'' - length w \<le> edit_distance ''zzqqxxwwvv'' w"
    by (rule edit_distance_ge)
  ultimately show "3 * length (normalize_text ''zzqqxxwwvv'')
                   < 10 * edit_distance (normalize_text ''zzqqxxwwvv'') w"
    by simp
qed


text \<open>
  The modelled search ranks its hits the way \<open>fuse_ranked\<close> says: by ascending score, hits
  of equal score by position, each hit carrying the document at its position.
\<close>

lemma sorted_wrt_filter_pair:
  assumes "sorted_wrt R (filter P ys)" "i < j" "j < length ys" "P (ys ! i)" "P (ys ! j)"
  shows "R (ys ! i) (ys ! j)"
proof -
  have i: "i < length ys" using assms(2,3) by simp
  have "ys = take i ys @ ys ! i # drop (Suc i) ys"
    using i by (rule id_take_nth_drop)
  moreover have "drop (Suc i) ys = take (j - Suc i) (drop (Suc i) ys) @ ys ! j # drop (Suc j) ys"
  proof -
    have "j - Suc i < length (drop (Suc i) ys)" using assms(2,3) by simp
    then have "drop (Suc i) ys = take (j - Suc i) (drop (Suc i) ys)
                 @ drop (Suc i) ys ! (j - Suc i) # drop (Suc (j - Suc i)) (drop (Suc i) ys)"
      by (rule id_take_nth_drop)
    moreover have "drop (Suc i) ys ! (j - Suc i) = ys ! j"
      using assms(2,3) by simp
    moreover have "drop (Suc (j - Suc i)) (drop (Suc i) ys) = drop (Suc j) ys"
      using assms(2) by simp
    ultimately show ?thesis by simp
  qed
  ultimately have "ys = take i ys @ ys ! i # take (j - Suc i) (drop (Suc i) ys) @ ys ! j # drop (Suc j) ys"
    by simp
  then have "filter P ys = filter P (take i ys) @ ys ! i
               # filter P (take (j - Suc i) (drop (Suc i) ys)) @ ys ! j # filter P (drop (Suc j) ys)"
    using assms(4,5) by (metis filter.simps(2) filter_append)
  with assms(1) show ?thesis
    by (simp add: sorted_wrt_append)
qed

lemma fuzzy_hits_positions:
  fixes f :: "'d \<Rightarrow> rat option"
  defines "hits \<equiv> \<lambda>n ds. concat (map (\<lambda>(i, d). case f d of
                                                None \<Rightarrow> []
                                              | Some s \<Rightarrow> [\<lparr>item = d, refIndex = i, score = s\<rparr>])
                                  (enumerate n ds))"
  shows "sorted_wrt (\<lambda>a b. refIndex a < refIndex b) (hits n ds)
       \<and> (\<forall>r \<in> set (hits n ds). n \<le> refIndex r \<and> refIndex r < n + length ds
              \<and> item r = ds ! (refIndex r - n))"
proof (induction ds arbitrary: n)
  case Nil
  show ?case by (simp add: hits_def)
next
  case (Cons d ds)
  let ?rest = "hits (Suc n) ds"
  have ih1: "sorted_wrt (\<lambda>a b. refIndex a < refIndex b) ?rest"
    and ih2: "\<forall>r \<in> set ?rest. Suc n \<le> refIndex r \<and> refIndex r < Suc n + length ds
                \<and> item r = ds ! (refIndex r - Suc n)"
    using Cons.IH [of "Suc n"] by blast+
  have rest: "n \<le> refIndex r \<and> n < refIndex r \<and> refIndex r < n + length (d # ds)
              \<and> item r = (d # ds) ! (refIndex r - n)" if "r \<in> set ?rest" for r
  proof -
    from ih2 that have r: "Suc n \<le> refIndex r" "refIndex r < Suc n + length ds"
      "item r = ds ! (refIndex r - Suc n)"
      by blast+
    from r(1) have "refIndex r - n = Suc (refIndex r - Suc n)" by arith
    then have "(d # ds) ! (refIndex r - n) = ds ! (refIndex r - Suc n)" by simp
    with r show ?thesis by simp
  qed
  show ?case
  proof (cases "f d")
    case None
    then have "hits n (d # ds) = ?rest" by (simp add: hits_def)
    with ih1 rest show ?thesis by simp
  next
    case (Some s)
    then have "hits n (d # ds) = \<lparr>item = d, refIndex = n, score = s\<rparr> # ?rest"
      by (simp add: hits_def)
    with ih1 rest show ?thesis by simp
  qed
qed

lemma fuzzy_search_ranked: "fuse_ranked ds (fuzzy_search key opts ds q)"
proof -
  let ?hits = "concat (mapi (\<lambda>d i. case fuzzy_score opts q (key d) of
                               None \<Rightarrow> []
                             | Some s \<Rightarrow> [\<lparr>item = d, refIndex = i, score = s\<rparr>]) ds)"
  let ?ys = "sort_key score ?hits"
  have pos: "sorted_wrt (\<lambda>a b. refIndex a < refIndex b) ?hits"
    and wf: "\<forall>r \<in> set ?hits. refIndex r < length ds \<and> item r = ds ! refIndex r"
    using fuzzy_hits_positions [of "\<lambda>d. fuzzy_score opts q (key d)" 0 ds]
    by (simp_all add: mapi_def case_prod_unfold)
  have "ranked_before (?ys ! i) (?ys ! j)" if "i < j" "j < length ?ys" for i j
  proof (cases "score (?ys ! i) = score (?ys ! j)")
    case False
    have "sorted (map score ?ys)" by (rule sorted_sort_key)
    then have "map score ?ys ! i \<le> map score ?ys ! j"
      using that by (intro sorted_nth_mono) simp_all
    then have "score (?ys ! i) \<le> score (?ys ! j)"
      using that by simp
    with False show ?thesis by (simp add: ranked_before_def)
  next
    case True
    let ?k = "score (?ys ! j)"
    have "filter (\<lambda>y. score y = ?k) ?ys = filter (\<lambda>y. score y = ?k) ?hits"
      by (rule sort_key_stable)
    then have "sorted_wrt (\<lambda>a b. refIndex a < refIndex b) (filter (\<lambda>y. score y = ?k) ?ys)"
      using pos by (simp add: sorted_wrt_filter)
    then have "refIndex (?ys ! i) < refIndex (?ys ! j)"
      using that True by (rule sorted_wrt_filter_pair) simp_all
    with True show ?thesis by (simp add: ranked_before_def)
  qed
  then have "sorted_wrt ranked_before ?ys"
    by (simp add: sorted_wrt_iff_nth_less)
  with wf show ?thesis
    by (simp add: fuse_ranked_def fuzzy_search_def)
qed

section \<open>Search and browse results\<close>

text \<open>
  Claim C1, as amended. With an empty or white-space-only query and no speaker or entity
  filter, the search page returns the first 100 paragraphs in transcript order, each with
  its position, and the transcript browse page returns every paragraph in transcript order,
  each with its position, without a cap.
\<close>

theorem empty_query_lists_transcript:
  assumes "trim query = []"
  shows "map paragraph (results lib (Some d) query None []) = take 100 (paragraphs d)
       \<and> map index (results lib (Some d) query None []) = [0..<min 100 (length (paragraphs d))]
       \<and> map para (filtered lib' (Some d) query None []) = paragraphs d
       \<and> map idx (filtered lib' (Some d) query None []) = [0..<length (paragraphs d)]"
  using assms
  by (simp add: results_def filtered_def SearchPage_matches_blank TranscriptContent_matches_blank
      take_map [symmetric] map_mapi mapi_fst mapi_snd take_upt min_def)

theorem empty_query_lists_transcript_witness:
  "trim ''  '' = []
   \<and> map paragraph (results no_hits (Some (transcript_of [example_paragraph])) ''  '' None [])
       = [example_paragraph]
   \<and> map para (filtered no_hits (Some (transcript_of [example_paragraph])) ''  '' None [])
       = [example_paragraph]"
proof -
  have t: "trim ''  '' = []" by (simp add: trim_def isWhiteSpace_def)
  show ?thesis
    using t empty_query_lists_transcript [OF t, of no_hits "transcript_of [example_paragraph]" no_hits]
    by (simp add: transcript_of_def)
qed

text \<open>
  Claim C1 as stated fails on the browse page: for a transcript of 101 paragraphs the empty
  query returns 101 results there, not the first 100.
\<close>

theorem browse_page_not_capped:
  "length (filtered no_hits (Some long_transcript) [] None [])
     = 101
   \<and> map para (filtered no_hits (Some long_transcript) [] None [])
     \<noteq> take 100 (paragraphs long_transcript)"
proof -
  let ?r = "filtered no_hits (Some long_transcript) [] None []"
  have n: "length ?r = 101"
    by (simp add: filtered_def TranscriptContent_matches_def trim_def length_mapi transcript_of_def
        long_transcript_def)
  have "length (map para ?r) \<noteq> length (take 100 (paragraphs long_transcript))"
    using n by (simp add: transcript_of_def long_transcript_def)
  then have "map para ?r \<noteq> take 100 (paragraphs long_transcript)"
    by metis
  with n show ?thesis by simp
qed

text \<open>
  Claim C5. Filters only narrow: on both pages, for every transcript, query and filter
  setting, the number of results with a speaker filter is at most the number with the speaker
  filter removed, and the number with an entity filter is at most the number with the entity
  filter removed.
\<close>

theorem filters_only_narrow:
  "length (results lib data query filterSpeaker filterEntity)
     \<le> length (results lib data query None filterEntity)
   \<and> length (results lib data query filterSpeaker filterEntity)
     \<le> length (results lib data query filterSpeaker [])
   \<and> length (filtered lib' data query filterSpeaker filterEntity)
     \<le> length (filtered lib' data query None filterEntity)
   \<and> length (filtered lib' data query filterSpeaker filterEntity)
     \<le> length (filtered lib' data query filterSpeaker [])"
proof (cases data)
  case None
  then show ?thesis by (simp add: results_def filtered_def)
next
  case (Some d)
  have a: "length (results lib data query filterSpeaker filterEntity)
           \<le> length (results lib data query None filterEntity)"
    unfolding results_def Some Let_def option.case
    by (rule length_take_mono) (simp add: length_filter_conj_le)
  have b: "length (results lib data query filterSpeaker filterEntity)
           \<le> length (results lib data query filterSpeaker [])"
    unfolding results_def Some Let_def option.case
    by (rule length_take_mono) (simp add: length_filter_conj_le2)
  have c: "length (filtered lib' data query filterSpeaker filterEntity)
           \<le> length (filtered lib' data query None filterEntity)"
    unfolding filtered_def Some Let_def option.case
    by (simp add: length_filter_conj_le)
  have d: "length (filtered lib' data query filterSpeaker filterEntity)
           \<le> length (filtered lib' data query filterSpeaker [])"
    unfolding filtered_def Some Let_def option.case
    by (simp add: length_filter_conj_le2)
  from a b c d show ?thesis by simp
qed

text \<open>
  Claim C6. On both pages the filters are applied to the outcome of text matching, as one
  conjunction: a match is kept exactly when its speaker equals the selected speaker (if one
  is selected; a paragraph without speaker never equals it) and the lower-cased paragraph
  text contains the lower-cased entity value as a contiguous substring (if one is selected).
  The search page then keeps the first 100.
\<close>

theorem filter_semantics:
  "results lib (Some d) query filterSpeaker filterEntity =
     take 100
       (filter
          (\<lambda>m. (\<forall>s. filterSpeaker = Some s \<longrightarrow> Paragraph.speaker (paragraph m) = Some s)
              \<and> (filterEntity \<noteq> [] \<longrightarrow>
                   (\<exists>pre suf. toLowerCase (Paragraph.text (paragraph m))
                                = pre @ toLowerCase filterEntity @ suf)))
          (SearchPage_matches lib d query))
   \<and> filtered lib' (Some d) query filterSpeaker filterEntity =
       filter
         (\<lambda>r. (\<forall>s. filterSpeaker = Some s \<longrightarrow> Paragraph.speaker (para r) = Some s)
             \<and> (filterEntity \<noteq> [] \<longrightarrow>
                  (\<exists>pre suf. toLowerCase (Paragraph.text (para r))
                               = pre @ toLowerCase filterEntity @ suf)))
         (TranscriptContent_matches lib' d query)"
proof -
  have sp: "\<And>x. (\<forall>s. filterSpeaker = Some s \<longrightarrow> x = Some s)
                 = (filterSpeaker = None \<or> x = filterSpeaker)"
    by (cases filterSpeaker) auto
  show ?thesis
    unfolding results_def filtered_def Let_def option.case sp str_includes_iff [symmetric]
    by (cases filterSpeaker; cases "filterEntity = []") (simp_all add: conj_commute)
qed

theorem filter_semantics_witness:
  "results no_hits (Some example_transcript) [] (Some 0) ''EHUD''
     = [\<lparr>paragraph = \<lparr>speaker = Some 0, start = 0, end = 4, num_words = 3,
                       text = ''Hello Ehud Barak'', sentences = []\<rparr>, index = 0\<rparr>]
   \<and> map idx (filtered no_hits (Some example_transcript) [] None ''EHUD'') = [0, 1]
   \<and> map idx (filtered no_hits (Some example_transcript) [] (Some 1) []) = [2]"
proof -
  have m: "SearchPage_matches no_hits example_transcript [] =
           mapi (\<lambda>p i. \<lparr>paragraph = p, index = i\<rparr>) (paragraphs example_transcript)"
    by (simp add: SearchPage_matches_blank trim_def)
  have m': "TranscriptContent_matches no_hits example_transcript [] =
           mapi (\<lambda>p i. \<lparr>para = p, idx = i\<rparr>) (paragraphs example_transcript)"
    by (simp add: TranscriptContent_matches_blank trim_def)
  have l: "toLowerCase ''EHUD'' = ''ehud''"
          "toLowerCase ''Hello Ehud Barak'' = ''hello ehud barak''"
          "toLowerCase ''ehud said'' = ''ehud said''"
          "toLowerCase ''the quick fox'' = ''the quick fox''"
    by (simp_all add: toLowerCase_def toLowerChar_def char_of_def bit_Suc_0_iff)
  note a = filter_semantics [of no_hits example_transcript "[]" "Some 0" "''EHUD''" no_hits,
      unfolded str_includes_iff [symmetric] m m']
  note b = filter_semantics [of no_hits example_transcript "[]" None "''EHUD''" no_hits,
      unfolded str_includes_iff [symmetric] m m']
  note c = filter_semantics [of no_hits example_transcript "[]" "Some 1" "[]" no_hits,
      unfolded str_includes_iff [symmetric] m m']
  from a b c show ?thesis
    by (simp add: example_transcript_def transcript_of_def mapi_def l)
qed

text \<open>
  Claim C4. Fuse.js is a parameter; what it documents about its hits is the hypothesis
  \<open>fuse_ranked\<close>. For a query that is not blank, the results of either page are, in order,
  the images of a subsequence of the hits that is sorted by ascending score (best match
  first) and, for equal scores, by ascending paragraph position; the index of each result
  is the position of its paragraph. For a blank query the results are in transcript order:
  their positions increase strictly.
\<close>

theorem results_ranked:
  "(trim query \<noteq> [] \<and> SearchPage_fuse (Some d) = Some fuse
      \<and> fuse_ranked (docs fuse) (search lib fuse query) \<longrightarrow>
      (\<exists>hits. subseq hits (search lib fuse query) \<and> sorted_wrt ranked_before hits
         \<and> results lib (Some d) query filterSpeaker filterEntity =
             map (\<lambda>r. \<lparr>paragraph = Paragraph.truncate (item r), index = refIndex r\<rparr>) hits))
   \<and> (trim query \<noteq> [] \<and> TranscriptContent_fuse (Some d) = Some fuse'
      \<and> fuse_ranked (docs fuse') (search lib' fuse' query) \<longrightarrow>
      (\<exists>hits. subseq hits (search lib' fuse' query) \<and> sorted_wrt ranked_before hits
         \<and> filtered lib' (Some d) query filterSpeaker filterEntity =
             map (\<lambda>r. \<lparr>para = Paragraph.truncate (item r), idx = refIndex r\<rparr>) hits))
   \<and> (trim query = [] \<longrightarrow>
        sorted_wrt (<) (map index (results lib (Some d) query filterSpeaker filterEntity))
      \<and> sorted_wrt (<) (map idx (filtered lib' (Some d) query filterSpeaker filterEntity)))"
proof (intro conjI impI)
  assume a: "trim query \<noteq> [] \<and> SearchPage_fuse (Some d) = Some fuse
             \<and> fuse_ranked (docs fuse) (search lib fuse query)"
  let ?conv = "\<lambda>r. \<lparr>paragraph = Paragraph.truncate (item r), index = refIndex r\<rparr>"
  let ?keep = "\<lambda>m. (filterSpeaker = None \<or> Paragraph.speaker (paragraph m) = filterSpeaker)
              \<and> (filterEntity = [] \<or>
                   str_includes (toLowerCase (Paragraph.text (paragraph m)))
                     (toLowerCase filterEntity))"
  let ?hits = "take 100 (filter (?keep \<circ> ?conv) (search lib fuse query))"
  have "results lib (Some d) query filterSpeaker filterEntity = map ?conv ?hits"
    using a by (simp add: results_as_filter SearchPage_matches_hits [of query d fuse lib] filter_map take_map)
  moreover have "subseq ?hits (search lib fuse query)"
    by (rule subseq_take_filter)
  moreover have "sorted_wrt ranked_before ?hits"
    using a by (intro ranked_subseq [of "docs fuse"]) simp
  ultimately show "\<exists>hits. subseq hits (search lib fuse query) \<and> sorted_wrt ranked_before hits
         \<and> results lib (Some d) query filterSpeaker filterEntity = map ?conv hits"
    by blast
next
  assume a: "trim query \<noteq> [] \<and> TranscriptContent_fuse (Some d) = Some fuse'
             \<and> fuse_ranked (docs fuse') (search lib' fuse' query)"
  let ?conv = "\<lambda>r. \<lparr>para = Paragraph.truncate (item r), idx = refIndex r\<rparr>"
  let ?keep = "\<lambda>r. (filterSpeaker = None \<or> Paragraph.speaker (para r) = filterSpeaker)
           \<and> (filterEntity = [] \<or>
                str_includes (toLowerCase (Paragraph.text (para r))) (toLowerCase filterEntity))"
  let ?hits = "filter (?keep \<circ> ?conv) (search lib' fuse' query)"
  have "filtered lib' (Some d) query filterSpeaker filterEntity = map ?conv ?hits"
    using a by (simp add: filtered_as_filter TranscriptContent_matches_hits [of query d fuse' lib'] filter_map)
  moreover have "subseq ?hits (search lib' fuse' query)"
    by simp
  moreover have "sorted_wrt ranked_before ?hits"
    using a by (simp add: fuse_ranked_def sorted_wrt_filter)
  ultimately show "\<exists>hits. subseq hits (search lib' fuse' query) \<and> sorted_wrt ranked_before hits
         \<and> filtered lib' (Some d) query filterSpeaker filterEntity = map ?conv hits"
    by blast
next
  assume "trim query = []"
  then show "sorted_wrt (<) (map index (results lib (Some d) query filterSpeaker filterEntity))"
    by (simp only: results_as_filter SearchPage_matches_blank sorted_index_mapi)
next
  assume "trim query = []"
  then show "sorted_wrt (<) (map idx (filtered lib' (Some d) query filterSpeaker filterEntity))"
    by (simp only: filtered_as_filter TranscriptContent_matches_blank sorted_idx_mapi)
qed

theorem results_ranked_witness:
  "trim ''ehud'' \<noteq> []
   \<and> (\<exists>fuse hits. SearchPage_fuse (Some example_transcript) = Some fuse
         \<and> fuse_ranked (docs fuse) (search later_first fuse ''ehud'')
         \<and> subseq hits (search later_first fuse ''ehud'') \<and> sorted_wrt ranked_before hits
         \<and> results later_first (Some example_transcript) ''ehud'' None [] =
             map (\<lambda>r. \<lparr>paragraph = Paragraph.truncate (item r), index = refIndex r\<rparr>) hits)
   \<and> (\<exists>fuse hits. TranscriptContent_fuse (Some example_transcript) = Some fuse
         \<and> fuse_ranked (docs fuse) (search later_first fuse ''ehud'')
         \<and> subseq hits (search later_first fuse ''ehud'') \<and> sorted_wrt ranked_before hits
         \<and> filtered later_first (Some example_transcript) ''ehud'' None [] =
             map (\<lambda>r. \<lparr>para = Paragraph.truncate (item r), idx = refIndex r\<rparr>) hits)
   \<and> trim [] = []
   \<and> sorted_wrt (<) (map index (results later_first (Some example_transcript) [] None []))"
proof -
  have t: "trim ''ehud'' \<noteq> []"
    by (simp add: trim_def isWhiteSpace_def)
  obtain f where f: "SearchPage_fuse (Some example_transcript) = Some f"
    by (simp add: SearchPage_fuse_def)
  obtain f' where f': "TranscriptContent_fuse (Some example_transcript) = Some f'"
    by (simp add: TranscriptContent_fuse_def)
  have r: "fuse_ranked (docs f) (search later_first f ''ehud'')"
    by (simp add: search_def later_first_ranked)
  have r': "fuse_ranked (docs f') (search later_first f' ''ehud'')"
    by (simp add: search_def later_first_ranked)
  have e: "trim [] = []"
    by (simp add: trim_def)
  note th = results_ranked [of "''ehud''" example_transcript f later_first None "[]" f' later_first]
  note th0 = results_ranked [of "[]" example_transcript f later_first None "[]" f' later_first]
  from th t f r have a: "\<exists>hits. subseq hits (search later_first f ''ehud'') \<and> sorted_wrt ranked_before hits
         \<and> results later_first (Some example_transcript) ''ehud'' None [] =
             map (\<lambda>r. \<lparr>paragraph = Paragraph.truncate (item r), index = refIndex r\<rparr>) hits"
    by blast
  from th t f' r' have b: "\<exists>hits. subseq hits (search later_first f' ''ehud'') \<and> sorted_wrt ranked_before hits
         \<and> filtered later_first (Some example_transcript) ''ehud'' None [] =
             map (\<lambda>r. \<lparr>para = Paragraph.truncate (item r), idx = refIndex r\<rparr>) hits"
    by blast
  from th0 e have c: "sorted_wrt (<) (map index (results later_first (Some example_transcript) [] None []))"
    by blast
  from t f r a f' r' b e c show ?thesis
    by blast
qed


section \<open>Highlighting\<close>

text \<open>
  Claim C10. For every paragraph text and every query (blank or not), highlightText returns
  a list of fragments, and concatenating their texts in order gives exactly the paragraph
  text.
\<close>

theorem highlight_preserves_text:
  "\<exists>frags. highlightText query txt = Some frags \<and> concat (map fragment_text frags) = txt"
proof (cases "trim query = []")
  case True
  then show ?thesis by (simp add: highlightText_def)
next
  case False
  then have "query \<noteq> []" by (rule trim_nonempty)
  then have "concat (split txt \<lparr>atoms = query, lastIndex = 0\<rparr>) = txt"
    using split_marks [of query "\<lparr>atoms = query, lastIndex = 0\<rparr>" "txt"] by simp
  then show ?thesis
    using False by (simp add: highlightText_nonblank concat_alternate)
qed

theorem highlight_preserves_text_witness:
  "concat (map fragment_text (the (highlightText ''aa'' ''aaa''))) = ''aaa''"
  using highlight_preserves_text [of "''aa''" "''aaa''"] by auto

text \<open>
  Claim C7, as amended. For a query that is not blank, highlightText marks the occurrences
  of the raw query, taken literally and up to case, that a scan from the left finds: the
  fragments alternate between plain and marked text, every marked fragment equals the query
  up to case and is the first occurrence after the fragments before it, the last plain
  fragment contains no occurrence, and the fragments together are the text. For a blank
  query nothing is marked. For the text "the quick fox" and each of the queries "quick",
  "Quick" and "QUICK", exactly "quick" is marked.
\<close>

theorem highlight_marks_occurrences:
  "(trim query \<noteq> [] \<longrightarrow>
      (\<exists>frags. highlightText query txt = Some frags \<and> marks_occurrences query frags
              \<and> concat (map fragment_text frags) = txt))
   \<and> (trim query = [] \<longrightarrow> highlightText query txt = Some [Plain txt])
   \<and> highlightText ''quick'' ''the quick fox'' = Some [Plain ''the '', Mark ''quick'', Plain '' fox'']
   \<and> highlightText ''Quick'' ''the quick fox'' = Some [Plain ''the '', Mark ''quick'', Plain '' fox'']
   \<and> highlightText ''QUICK'' ''the quick fox'' = Some [Plain ''the '', Mark ''quick'', Plain '' fox'']"
proof -
  have general:
    "(trim query \<noteq> [] \<longrightarrow>
        (\<exists>frags. highlightText query txt = Some frags \<and> marks_occurrences query frags
                \<and> concat (map fragment_text frags) = txt))
     \<and> (trim query = [] \<longrightarrow> highlightText query txt = Some [Plain txt])"
  proof (cases "trim query = []")
    case True
    then show ?thesis by (simp add: highlightText_def)
  next
    case False
    then have "query \<noteq> []" by (rule trim_nonempty)
    then have "marks_occurrences query (alternate (split txt \<lparr>atoms = query, lastIndex = 0\<rparr>))
             \<and> concat (split txt \<lparr>atoms = query, lastIndex = 0\<rparr>) = txt"
      using split_marks [of query "\<lparr>atoms = query, lastIndex = 0\<rparr>" "txt"] by simp
    then show ?thesis
      using False by (simp add: highlightText_nonblank concat_alternate)
  qed
  have a: "highlightText ''quick'' ''the quick fox'' = Some [Plain ''the '', Mark ''quick'', Plain '' fox'']"
    by code_simp
  have b: "highlightText ''Quick'' ''the quick fox'' = Some [Plain ''the '', Mark ''quick'', Plain '' fox'']"
    by code_simp
  have c: "highlightText ''QUICK'' ''the quick fox'' = Some [Plain ''the '', Mark ''quick'', Plain '' fox'']"
    by code_simp
  from general a b c show ?thesis by simp
qed

theorem highlight_marks_occurrences_witness:
  "trim ''aa'' \<noteq> []
   \<and> (\<exists>frags. highlightText ''aa'' ''aaa'' = Some frags \<and> marks_occurrences ''aa'' frags
              \<and> concat (map fragment_text frags) = ''aaa'')"
proof -
  have t: "trim ''aa'' \<noteq> []"
    by (simp add: trim_def isWhiteSpace_def)
  with highlight_marks_occurrences [of "''aa''" "''aaa''"] show ?thesis
    by blast
qed

text \<open>
  Claim C7 as stated fails for a blank query: the query of one space occurs in "a b", and
  nothing is marked. With occurrences that overlap, only those found by the scan are marked:
  in "aaa" the query "aa" also occurs at position 1, and the marked fragment is the one at
  position 0.
\<close>

theorem highlight_blank_query_unmarked:
  "highlightText '' '' ''a b'' = Some [Plain ''a b''] \<and> ci_occurs '' '' ''a b''
   \<and> highlightText ''aa'' ''aaa'' = Some [Plain [], Mark ''aa'', Plain ''a'']
   \<and> matchesAt ''aa'' ''aaa'' 1"
  by code_simp

section \<open>Failure of the ask request\<close>

text \<open>
  Claim C8. When the request behind ask fails (fetch rejects, or the response is not ok),
  askQuestion throws; handleSubmit then appends, after the question, one assistant message
  with the fixed apology and without sources, and stops loading. That message differs from
  the message appended for any outcome on which askQuestion returns, which always has the
  field sources.
\<close>

theorem ask_failure_surfaced:
  assumes "backend (trim (input page)) = Rejected
           \<or> (\<exists>res. backend (trim (input page)) = Resolved res \<and> \<not> ok res)"
    and "trim (input page) \<noteq> []" and "\<not> isLoading page"
  shows "(\<exists>e. askQuestion backend (trim (input page)) = Inl e)
       \<and> (backend (trim (input page)) \<noteq> Rejected \<longrightarrow>
            askQuestion backend (trim (input page)) = Inl (Error ''Failed to get answer''))
       \<and> messages (handleSubmit backend page) =
           messages page
           @ [\<lparr>role = User, content = trim (input page), sources = None\<rparr>,
              \<lparr>role = Assistant,
               content = ''Sorry, I encountered an error processing your question. Please try again.'',
               sources = None\<rparr>]
       \<and> \<not> isLoading (handleSubmit backend page)
       \<and> (\<forall>backend' result. askQuestion backend' (trim (input page)) = Inr result \<longrightarrow>
              last (messages (handleSubmit backend' page))
                \<noteq> last (messages (handleSubmit backend page)))"
  using assms
  by (auto simp: askQuestion_def handleSubmit_def Let_def)

theorem ask_failure_surfaced_witness:
  "askQuestion failing_backend ''who spoke?'' = Inl (Error ''Failed to get answer'')
   \<and> messages (handleSubmit failing_backend asking_page) =
       [\<lparr>role = User, content = ''who spoke?'', sources = None\<rparr>,
        \<lparr>role = Assistant,
         content = ''Sorry, I encountered an error processing your question. Please try again.'',
         sources = None\<rparr>]"
proof -
  have t: "trim (input asking_page) = ''who spoke?''"
    by (simp add: asking_page_def trim_def isWhiteSpace_def)
  have f: "failing_backend (trim (input asking_page)) = Rejected
           \<or> (\<exists>res. failing_backend (trim (input asking_page)) = Resolved res \<and> \<not> ok res)"
    by (simp add: failing_backend_def)
  have n: "trim (input asking_page) \<noteq> []"
    by (simp add: t)
  have l: "\<not> isLoading asking_page"
    by (simp add: asking_page_def)
  have m: "messages asking_page = []"
    by (simp add: asking_page_def)
  from ask_failure_surfaced [of failing_backend asking_page, OF f n l, unfolded t m]
  show ?thesis
    by (simp add: failing_backend_def)
qed

section \<open>Searching leaves the transcript unchanged\<close>

text \<open>
  Claim C9, as amended. One rendering of either page, for every query and every filter
  setting, only adds objects to the store: every object that was there before (the
  transcript, its array of paragraphs, its array of entities, every paragraph) is the same
  afterwards. The array of results is created by the search; for a blank query each of its
  entries refers to a paragraph object of the transcript itself. The documents of the search
  index are created with it, one per paragraph, each a copy of the fields of its paragraph
  with the position added. The library is taken to write nothing but its own hits.
\<close>

theorem search_leaves_transcript:
  "prefix h (snd (SearchPage_h matcher localeCompare data query filterSpeaker filterEntity h))
   \<and> prefix h (snd (TranscriptContent_h matcher localeCompare data query filterSpeaker filterEntity h))
   \<and> created_after h (fst (results_h matcher data fuse query filterSpeaker filterEntity h))
   \<and> created_after h (fst (filtered_h matcher data fuse query filterSpeaker filterEntity h))
   \<and> (trim query = [] \<and> truthy data \<longrightarrow>
        (\<forall>m \<in> set (elements (snd (results_h matcher data fuse query filterSpeaker filterEntity h))
                       (fst (results_h matcher data fuse query filterSpeaker filterEntity h))).
           get (snd (results_h matcher data fuse query filterSpeaker filterEntity h)) m ''paragraph''
             \<in> set (elements h (get h data ''paragraphs'')))
      \<and> (\<forall>r \<in> set (elements (snd (filtered_h matcher data fuse query filterSpeaker filterEntity h))
                       (fst (filtered_h matcher data fuse query filterSpeaker filterEntity h))).
           get (snd (filtered_h matcher data fuse query filterSpeaker filterEntity h)) r ''para''
             \<in> set (elements h (get h data ''paragraphs''))))
   \<and> (truthy data \<and> (\<forall>p \<in> set (elements h (get h data ''paragraphs'')). valid h p) \<longrightarrow>
        (let ps = elements h (get h data ''paragraphs'');
             h1 = snd (SearchPage_fuse_h data h);
             ds = elements h1 (get h1 (fst (SearchPage_fuse_h data h)) ''_docs'')
         in ds = map Ref [length h..<length h + length ps]
            \<and> (\<forall>i < length ps. deref h1 (ds ! i) = Some (copy_with h ''index'' (ps ! i) i)))
      \<and> (let ps = elements h (get h data ''paragraphs'');
             h1 = snd (TranscriptContent_fuse_h data h);
             ds = elements h1 (get h1 (fst (TranscriptContent_fuse_h data h)) ''_docs'')
         in ds = map Ref [length h..<length h + length ps]
            \<and> (\<forall>i < length ps. deref h1 (ds ! i) = Some (copy_with h ''_idx'' (ps ! i) i))))"
proof (intro conjI impI)
  show "prefix h (snd (SearchPage_h matcher localeCompare data query filterSpeaker filterEntity h))"
    by (rule prefix_SearchPage_h)
  show "prefix h (snd (TranscriptContent_h matcher localeCompare data query filterSpeaker filterEntity h))"
    by (rule prefix_TranscriptContent_h)
  show "created_after h (fst (results_h matcher data fuse query filterSpeaker filterEntity h))"
    by (rule created_after_results_h)
  show "created_after h (fst (filtered_h matcher data fuse query filterSpeaker filterEntity h))"
    by (rule created_after_filtered_h)
next
  assume b: "trim query = [] \<and> truthy data"
  let ?r = "results_h matcher data fuse query filterSpeaker filterEntity h"
  have "wraps ''paragraph'' (elements h (get h data ''paragraphs'')) h (fst ?r) (snd ?r)"
    using b by (intro results_h_blank) simp_all
  then show "\<forall>m \<in> set (elements (snd ?r) (fst ?r)).
           get (snd ?r) m ''paragraph'' \<in> set (elements h (get h data ''paragraphs''))"
    by (blast intro: wraps_get)
next
  assume b: "trim query = [] \<and> truthy data"
  let ?r = "filtered_h matcher data fuse query filterSpeaker filterEntity h"
  have "wraps ''para'' (elements h (get h data ''paragraphs'')) h (fst ?r) (snd ?r)"
    using b by (intro filtered_h_blank) simp_all
  then show "\<forall>r \<in> set (elements (snd ?r) (fst ?r)).
           get (snd ?r) r ''para'' \<in> set (elements h (get h data ''paragraphs''))"
    by (blast intro: wraps_get)
next
  assume a: "truthy data \<and> (\<forall>p \<in> set (elements h (get h data ''paragraphs'')). valid h p)"
  let ?ps = "elements h (get h data ''paragraphs'')"
  let ?m = "array_map (\<lambda>p i. spread_with p ''index'' (Num (of_nat i))) (get h data ''paragraphs'') h"
  have f: "SearchPage_fuse_h data h = new_Fuse (fst ?m) (snd ?m)"
    using a by (simp add: SearchPage_fuse_h_def case_prod_unfold)
  show "let ps = elements h (get h data ''paragraphs'');
             h1 = snd (SearchPage_fuse_h data h);
             ds = elements h1 (get h1 (fst (SearchPage_fuse_h data h)) ''_docs'')
         in ds = map Ref [length h..<length h + length ps]
            \<and> (\<forall>i < length ps. deref h1 (ds ! i) = Some (copy_with h ''index'' (ps ! i) i))"
    unfolding Let_def f
    by (rule fuse_h_copies [of ?ps h "''index''" "get h data ''paragraphs''" "fst ?m" "snd ?m"])
       (use a in simp_all)
next
  assume a: "truthy data \<and> (\<forall>p \<in> set (elements h (get h data ''paragraphs'')). valid h p)"
  let ?ps = "elements h (get h data ''paragraphs'')"
  let ?m = "array_map (\<lambda>p i. spread_with p ''_idx'' (Num (of_nat i))) (get h data ''paragraphs'') h"
  have f: "TranscriptContent_fuse_h data h = new_Fuse (fst ?m) (snd ?m)"
    using a by (simp add: TranscriptContent_fuse_h_def case_prod_unfold)
  show "let ps = elements h (get h data ''paragraphs'');
             h1 = snd (TranscriptContent_fuse_h data h);
             ds = elements h1 (get h1 (fst (TranscriptContent_fuse_h data h)) ''_docs'')
         in ds = map Ref [length h..<length h + length ps]
            \<and> (\<forall>i < length ps. deref h1 (ds ! i) = Some (copy_with h ''_idx'' (ps ! i) i))"
    unfolding Let_def f
    by (rule fuse_h_copies [of ?ps h "''_idx''" "get h data ''paragraphs''" "fst ?m" "snd ?m"])
       (use a in simp_all)
qed


theorem search_leaves_transcript_witness:
  "truthy example_data
   \<and> list_all (valid example_store) (elements example_store (get example_store example_data ''paragraphs''))
   \<and> prefix example_store
        (snd (SearchPage_h match_all compare_lengths example_data ''ehud'' (Some 1) ''Ehud'' example_store))
   \<and> elements (snd (SearchPage_fuse_h example_data example_store))
        (get (snd (SearchPage_fuse_h example_data example_store))
           (fst (SearchPage_fuse_h example_data example_store)) ''_docs'') = [Ref 8, Ref 9]"
proof -
  have t: "truthy example_data"
    by (simp add: truthy_def example_data_def)
  have l: "length example_store = 8"
    by (simp add: example_store_def)
  have v: "\<forall>p \<in> set (elements example_store (get example_store example_data ''paragraphs'')).
             valid example_store p"
    unfolding example_paragraphs by (simp add: valid_def l)
  note th = search_leaves_transcript [of example_store match_all compare_lengths example_data
      "''ehud''" "Some 1" "''Ehud''" Null]
  from th t v have
    "elements (snd (SearchPage_fuse_h example_data example_store))
        (get (snd (SearchPage_fuse_h example_data example_store))
           (fst (SearchPage_fuse_h example_data example_store)) ''_docs'')
     = map Ref [length example_store..<length example_store
          + length (elements example_store (get example_store example_data ''paragraphs''))]"
    unfolding Let_def by blast
  then have d: "elements (snd (SearchPage_fuse_h example_data example_store))
        (get (snd (SearchPage_fuse_h example_data example_store))
           (fst (SearchPage_fuse_h example_data example_store)) ''_docs'') = [Ref 8, Ref 9]"
    by (simp add: example_paragraphs l upt_rec)
  from th have p: "prefix example_store
        (snd (SearchPage_h match_all compare_lengths example_data ''ehud'' (Some 1) ''Ehud'' example_store))"
    by blast
  from t v p d show ?thesis
    by (simp add: list_all_iff)
qed


text \<open>
  Claim C9 as stated says that the result lists, too, are built over copies. For a blank
  query they are not: each result refers to the paragraph object of the transcript itself.
\<close>

theorem blank_query_results_share_paragraphs:
  "elements example_store (get example_store example_data ''paragraphs'') = [Ref 1, Ref 2]
   \<and> map (\<lambda>m. get (snd (results_h match_all example_data Null [] None [] example_store)) m ''paragraph'')
       (elements (snd (results_h match_all example_data Null [] None [] example_store))
          (fst (results_h match_all example_data Null [] None [] example_store)))
     = [Ref 1, Ref 2]"
  by code_simp

section \<open>Fuzzy search\<close>

text \<open>
  Claim C2, as amended, for the matcher modelled from the specification. If a paragraph of
  the transcript contains "Ehud", the query "Ehdu" without filters finds it: the transcript
  browse page returns the paragraph, and on the search page it is among the matches, of
  which the page returns the first 100; so the search page returns it whenever the
  transcript has at most 100 paragraphs.
\<close>

theorem typo_Ehdu_finds_Ehud:
  assumes "i < length (paragraphs d)" "Paragraph.text (paragraphs d ! i) = a @ ''Ehud'' @ b"
  shows "\<lparr>para = paragraphs d ! i, idx = i\<rparr>
           \<in> set (filtered (fuzzy_search Paragraph.text) (Some d) ''Ehdu'' None [])
       \<and> \<lparr>paragraph = paragraphs d ! i, index = i\<rparr>
           \<in> set (SearchPage_matches (fuzzy_search Paragraph.text) d ''Ehdu'')
       \<and> results (fuzzy_search Paragraph.text) (Some d) ''Ehdu'' None []
           = take 100 (SearchPage_matches (fuzzy_search Paragraph.text) d ''Ehdu'')
       \<and> (length (paragraphs d) \<le> 100 \<longrightarrow>
            \<lparr>paragraph = paragraphs d ! i, index = i\<rparr>
              \<in> set (results (fuzzy_search Paragraph.text) (Some d) ''Ehdu'' None []))"
proof -
  have t: "trim ''Ehdu'' \<noteq> []"
    by (simp add: trim_def isWhiteSpace_def)
  let ?p = "paragraphs d ! i"
  let ?ds = "mapi (\<lambda>p i. Paragraph.extend p \<lparr>item_index = i\<rparr>) (paragraphs d)"
  let ?ds' = "mapi (\<lambda>p i. Paragraph.extend p \<lparr>item_idx = i\<rparr>) (paragraphs d)"
  have di: "?ds ! i = Paragraph.extend ?p \<lparr>item_index = i\<rparr>"
    and di': "?ds' ! i = Paragraph.extend ?p \<lparr>item_idx = i\<rparr>"
    using assms(1) by (simp_all add: nth_mapi)
  obtain s where s: "fuzzy_score fuse_options ''Ehdu'' (Paragraph.text ?p) = Some s"
    using fuzzy_score_Ehud [OF assms(2)] by blast
  let ?f = "\<lambda>r. \<lparr>paragraph = Paragraph.truncate (item r), index = item_index (item r)\<rparr>"
  let ?g = "\<lambda>r. \<lparr>para = Paragraph.truncate (item r), idx = item_idx (item r)\<rparr>"
  have "\<lparr>item = ?ds ! i, refIndex = i, score = s\<rparr>
          \<in> set (fuzzy_search Paragraph.text fuse_options ?ds ''Ehdu'')"
    using assms(1) s by (intro fuzzy_search_hit) (simp_all only: length_mapi SearchPage_doc_text)
  then have img: "?f \<lparr>item = ?ds ! i, refIndex = i, score = s\<rparr>
                   \<in> ?f ` set (fuzzy_search Paragraph.text fuse_options ?ds ''Ehdu'')"
    by (rule imageI)
  have conv: "?f \<lparr>item = ?ds ! i, refIndex = i, score = s\<rparr> = \<lparr>paragraph = ?p, index = i\<rparr>"
    unfolding di by (simp add: Paragraph.extend_def Paragraph.truncate_def)
  have eq: "SearchPage_matches (fuzzy_search Paragraph.text) d ''Ehdu''
            = map ?f (fuzzy_search Paragraph.text fuse_options ?ds ''Ehdu'')"
    using t by (simp add: SearchPage_matches_def SearchPage_fuse_def search_def)
  have m: "\<lparr>paragraph = ?p, index = i\<rparr>
             \<in> set (SearchPage_matches (fuzzy_search Paragraph.text) d ''Ehdu'')"
    unfolding eq set_map using img unfolding conv .
  have "\<lparr>item = ?ds' ! i, refIndex = i, score = s\<rparr>
          \<in> set (fuzzy_search Paragraph.text fuse_options ?ds' ''Ehdu'')"
    using assms(1) s by (intro fuzzy_search_hit) (simp_all only: length_mapi TranscriptContent_doc_text)
  then have img': "?g \<lparr>item = ?ds' ! i, refIndex = i, score = s\<rparr>
                   \<in> ?g ` set (fuzzy_search Paragraph.text fuse_options ?ds' ''Ehdu'')"
    by (rule imageI)
  have conv': "?g \<lparr>item = ?ds' ! i, refIndex = i, score = s\<rparr> = \<lparr>para = ?p, idx = i\<rparr>"
    unfolding di' by (simp add: Paragraph.extend_def Paragraph.truncate_def)
  have eq': "filtered (fuzzy_search Paragraph.text) (Some d) ''Ehdu'' None []
            = map ?g (fuzzy_search Paragraph.text fuse_options ?ds' ''Ehdu'')"
    using t by (simp add: filtered_def TranscriptContent_matches_def TranscriptContent_fuse_def search_def)
  have m': "\<lparr>para = ?p, idx = i\<rparr>
             \<in> set (filtered (fuzzy_search Paragraph.text) (Some d) ''Ehdu'' None [])"
    unfolding eq' set_map using img' unfolding conv' .
  have r: "results (fuzzy_search Paragraph.text) (Some d) ''Ehdu'' None []
           = take 100 (SearchPage_matches (fuzzy_search Paragraph.text) d ''Ehdu'')"
    by (simp add: results_def)
  have "length (SearchPage_matches (fuzzy_search Paragraph.text) d ''Ehdu'') \<le> length (paragraphs d)"
    using t length_fuzzy_search [of Paragraph.text fuse_options ?ds "''Ehdu''"]
    by (simp add: SearchPage_matches_def SearchPage_fuse_def search_def length_mapi)
  then have "length (paragraphs d) \<le> 100 \<longrightarrow>
            \<lparr>paragraph = ?p, index = i\<rparr>
              \<in> set (results (fuzzy_search Paragraph.text) (Some d) ''Ehdu'' None [])"
    using m by (simp add: r)
  with m m' r show ?thesis by simp
qed

theorem typo_Ehdu_finds_Ehud_witness:
  "0 < length (paragraphs example_transcript)
   \<and> Paragraph.text (paragraphs example_transcript ! 0) = ''Hello '' @ ''Ehud'' @ '' Barak''
   \<and> 0 \<in> idx ` set (filtered (fuzzy_search Paragraph.text) (Some example_transcript) ''Ehdu'' None [])
   \<and> 0 \<in> index ` set (results (fuzzy_search Paragraph.text) (Some example_transcript) ''Ehdu'' None [])"
proof -
  have l: "0 < length (paragraphs example_transcript)"
    by (simp add: example_transcript_def transcript_of_def)
  have x: "Paragraph.text (paragraphs example_transcript ! 0) = ''Hello '' @ ''Ehud'' @ '' Barak''"
    by (simp add: example_transcript_def transcript_of_def)
  have n: "length (paragraphs example_transcript) \<le> 100"
    by (simp add: example_transcript_def transcript_of_def)
  note th = typo_Ehdu_finds_Ehud [OF l x]
  from th have "idx \<lparr>para = paragraphs example_transcript ! 0, idx = 0\<rparr>
        \<in> idx ` set (filtered (fuzzy_search Paragraph.text) (Some example_transcript) ''Ehdu'' None [])"
    by (intro imageI) simp
  moreover from th n have "\<lparr>paragraph = paragraphs example_transcript ! 0, index = 0\<rparr>
        \<in> set (results (fuzzy_search Paragraph.text) (Some example_transcript) ''Ehdu'' None [])"
    by blast
  then have "index \<lparr>paragraph = paragraphs example_transcript ! 0, index = 0\<rparr>
        \<in> index ` set (results (fuzzy_search Paragraph.text) (Some example_transcript) ''Ehdu'' None [])"
    by (rule imageI)
  ultimately show ?thesis
    using l x by simp
qed


text \<open>
  Claim C2 as stated fails on the search page when more than 100 paragraphs match: in the
  transcript of 101 paragraphs "Ehud" all match "Ehdu" equally well, the page returns the
  first 100, and the last paragraph is not among the results.
\<close>

theorem typo_hit_beyond_cap:
  "100 < length (paragraphs long_transcript)
   \<and> Paragraph.text (paragraphs long_transcript ! 100) = ''Ehud''
   \<and> map index (results (fuzzy_search Paragraph.text) (Some long_transcript) ''Ehdu'' None [])
       = [0..<100]
   \<and> 100 \<notin> index ` set (results (fuzzy_search Paragraph.text) (Some long_transcript) ''Ehdu'' None [])"
proof -
  have t: "trim ''Ehdu'' \<noteq> []"
    by (simp add: trim_def isWhiteSpace_def)
  have ps: "paragraphs long_transcript = replicate 101 example_paragraph"
    by (simp add: long_transcript_def transcript_of_def)
  let ?ds = "mapi (\<lambda>p i. Paragraph.extend p \<lparr>item_index = i\<rparr>) (paragraphs long_transcript)"
  obtain s where s: "fuzzy_score fuse_options ''Ehdu'' ''Ehud'' = Some s"
    using fuzzy_score_Ehud [of "''Ehud''" "[]" "[]"] by auto
  have "fuzzy_score fuse_options ''Ehdu'' (Paragraph.text d) = Some s" if "d \<in> set ?ds" for d
  proof -
    from that obtain i where "i < length ?ds" "d = ?ds ! i"
      by (auto simp: in_set_conv_nth)
    then have "Paragraph.text d = ''Ehud''"
      by (simp add: length_mapi nth_mapi ps Paragraph.extend_def example_paragraph_def)
    with s show ?thesis by simp
  qed
  then have "fuzzy_search Paragraph.text fuse_options ?ds ''Ehdu''
             = mapi (\<lambda>d i. \<lparr>item = d, refIndex = i, score = s\<rparr>) ?ds"
    by (rule fuzzy_search_all)
  then have "SearchPage_matches (fuzzy_search Paragraph.text) long_transcript ''Ehdu''
             = map (\<lambda>r. \<lparr>paragraph = Paragraph.truncate (item r), index = item_index (item r)\<rparr>)
                 (mapi (\<lambda>d i. \<lparr>item = d, refIndex = i, score = s\<rparr>) ?ds)"
    using t by (simp add: SearchPage_matches_def SearchPage_fuse_def search_def)
  then have "map index (SearchPage_matches (fuzzy_search Paragraph.text) long_transcript ''Ehdu'')
             = mapi (\<lambda>d i. item_index d) ?ds"
    by (simp add: map_mapi)
  also have "\<dots> = [0..<101]"
    by (simp only: SearchPage_doc_positions) (simp add: ps)
  finally have "take 100 (map index (SearchPage_matches (fuzzy_search Paragraph.text) long_transcript ''Ehdu''))
                = take 100 [0..<101]"
    by simp
  then have "map index (results (fuzzy_search Paragraph.text) (Some long_transcript) ''Ehdu'' None [])
                = take 100 [0..<101]"
    by (simp only: take_map results_def Let_def option.case) simp
  then have r: "map index (results (fuzzy_search Paragraph.text) (Some long_transcript) ''Ehdu'' None [])
                = [0..<100]"
    by (simp add: take_upt)
  have "index ` set (results (fuzzy_search Paragraph.text) (Some long_transcript) ''Ehdu'' None [])
        = set [0..<100]"
    unfolding r [symmetric] by simp
  then have "100 \<notin> index ` set (results (fuzzy_search Paragraph.text) (Some long_transcript) ''Ehdu'' None [])"
    by simp
  moreover have "Paragraph.text (paragraphs long_transcript ! 100) = ''Ehud''"
    by (simp add: ps example_paragraph_def)
  ultimately show ?thesis
    using r by (simp add: ps)
qed

text \<open>
  Claim C3, as amended, for the matcher modelled from the specification. If the query is
  not blank and every stretch of at least two characters of every paragraph's normalised
  text differs from the normalised query by more edits than 30 per cent of the query's
  length (more than 3 edits for a query of 10 characters), both pages return no results,
  whatever the filters.
\<close>

theorem unrelated_query_finds_nothing:
  assumes "trim query \<noteq> []"
    and "\<forall>p \<in> set (paragraphs d).
           \<forall>w \<in> set (windows (normalize_text (Paragraph.text p))).
             2 \<le> length w \<longrightarrow>
             3 * length (normalize_text query) < 10 * edit_distance (normalize_text query) w"
  shows "results (fuzzy_search Paragraph.text) (Some d) query filterSpeaker filterEntity = []
       \<and> filtered (fuzzy_search Paragraph.text) (Some d) query filterSpeaker filterEntity = []"
proof -
  have none: "fuzzy_score fuse_options query (Paragraph.text p) = None" if "p \<in> set (paragraphs d)" for p
  proof (rule fuzzy_score_far)
    show "threshold fuse_options < 1" by (simp add: fuse_options_def)
    show "\<forall>w \<in> set (windows (normalize_text (Paragraph.text p))).
            minMatchCharLength fuse_options \<le> length w \<longrightarrow>
            threshold fuse_options * of_nat (length (normalize_text query))
              < of_nat (edit_distance (normalize_text query) w)"
    proof (intro ballI impI)
      fix w
      assume w: "w \<in> set (windows (normalize_text (Paragraph.text p)))"
        and "minMatchCharLength fuse_options \<le> length w"
      then have "2 \<le> length w" by (simp add: fuse_options_def)
      with assms(2) that w
      have "3 * length (normalize_text query) < 10 * edit_distance (normalize_text query) w"
        by blast
      then have "(of_nat (3 * length (normalize_text query)) :: rat)
                 < of_nat (10 * edit_distance (normalize_text query) w)"
        by (simp only: of_nat_less_iff)
      then show "threshold fuse_options * of_nat (length (normalize_text query))
              < of_nat (edit_distance (normalize_text query) w)"
        by (simp add: fuse_options_def)
    qed
  qed
  let ?ds = "mapi (\<lambda>p i. Paragraph.extend p \<lparr>item_index = i\<rparr>) (paragraphs d)"
  let ?ds' = "mapi (\<lambda>p i. Paragraph.extend p \<lparr>item_idx = i\<rparr>) (paragraphs d)"
  have "fuzzy_score fuse_options query (Paragraph.text x) = None" if "x \<in> set ?ds" for x
  proof -
    from that obtain i where "i < length (paragraphs d)"
      "x = Paragraph.extend (paragraphs d ! i) \<lparr>item_index = i\<rparr>"
      by (rule in_set_mapiE)
    then show ?thesis
      using none [of "paragraphs d ! i"] by (simp add: Paragraph.extend_def)
  qed
  then have 1: "fuzzy_search Paragraph.text fuse_options ?ds query = []"
    by (rule fuzzy_search_none)
  have "fuzzy_score fuse_options query (Paragraph.text x) = None" if "x \<in> set ?ds'" for x
  proof -
    from that obtain i where "i < length (paragraphs d)"
      "x = Paragraph.extend (paragraphs d ! i) \<lparr>item_idx = i\<rparr>"
      by (rule in_set_mapiE)
    then show ?thesis
      using none [of "paragraphs d ! i"] by (simp add: Paragraph.extend_def)
  qed
  then have 2: "fuzzy_search Paragraph.text fuse_options ?ds' query = []"
    by (rule fuzzy_search_none)
  have "SearchPage_matches (fuzzy_search Paragraph.text) d query = []"
    using assms(1) 1 by (simp add: SearchPage_matches_def SearchPage_fuse_def search_def)
  moreover have "TranscriptContent_matches (fuzzy_search Paragraph.text) d query = []"
    using assms(1) 2 by (simp add: TranscriptContent_matches_def TranscriptContent_fuse_def search_def)
  ultimately show ?thesis
    by (simp add: results_as_filter filtered_as_filter)
qed

theorem unrelated_query_finds_nothing_witness:
  "trim ''zzqqxxwwvv'' \<noteq> []
   \<and> length ''zzqqxxwwvv'' = 10
   \<and> results (fuzzy_search Paragraph.text) (Some short_transcript) ''zzqqxxwwvv'' None [] = []
   \<and> filtered (fuzzy_search Paragraph.text) (Some short_transcript) ''zzqqxxwwvv'' None [] = []"
proof -
  have t: "trim ''zzqqxxwwvv'' \<noteq> []"
    by (simp add: trim_def isWhiteSpace_def)
  from unrelated_query_finds_nothing [OF t far_example] t show ?thesis
    by simp
qed


text \<open>
  Claim C3 as stated fails for a query of ten spaces: it does not occur in the paragraph
  "Ehud" and is not close to it, but it is blank, so both pages list the paragraphs.
\<close>

theorem blank_query_lists_paragraphs:
  "length ''          '' = 10
   \<and> \<not> str_includes (Paragraph.text example_paragraph) ''          ''
   \<and> fuzzy_score fuse_options ''          '' (Paragraph.text example_paragraph) = None
   \<and> map paragraph (results (fuzzy_search Paragraph.text) (Some short_transcript) ''          '' None [])
       = [example_paragraph]
   \<and> map para (filtered (fuzzy_search Paragraph.text) (Some short_transcript) ''          '' None [])
       = [example_paragraph]"
proof -
  have t: "trim ''          '' = []"
    by (simp add: trim_def isWhiteSpace_def)
  have a: "\<not> str_includes (Paragraph.text example_paragraph) ''          ''"
    by (simp add: example_paragraph_def)
  have b: "fuzzy_score fuse_options ''          '' (Paragraph.text example_paragraph) = None"
    by code_simp
  have c: "map paragraph (results (fuzzy_search Paragraph.text) (Some short_transcript) ''          '' None [])
       = [example_paragraph]"
    using t by (simp add: results_def SearchPage_matches_def short_transcript_def transcript_of_def mapi_def)
  have d: "map para (filtered (fuzzy_search Paragraph.text) (Some short_transcript) ''          '' None [])
       = [example_paragraph]"
    using t by (simp add: filtered_def TranscriptContent_matches_def short_transcript_def transcript_of_def mapi_def)
  from a b c d show ?thesis by simp
qed

end
